theory Spec2Isabelle
  imports Main "HOL-Library.List_Lexorder"
begin

section \<open>Data model\<close>

text \<open>
  A Python \<open>str\<close> is a sequence of Unicode code points, compared lexicographically by
  code point (a proper prefix is smaller): a list of naturals under the lexicographic
  order on lists.
\<close>

type_synonym pystr = "nat list"

text \<open>The rows of the three tables (\<open>Student\<close>, \<open>TimeEntry\<close>, \<open>ActionLog\<close>).\<close>

record student =
  s_id :: int
  s_name :: pystr
  s_program :: "pystr option"
  s_total_hours :: int
  s_completed_hours :: int
  s_picture :: "pystr option"

record time_entry =
  te_id :: int
  te_student_id :: int
  te_clock_in :: int
  te_clock_out :: "int option"

text \<open>
  The action tags are strings in the source: \<open>'ADD'\<close>, \<open>'EDIT'\<close>, \<open>'DELETE'\<close> for the
  history entries and the log, \<open>'UNDO'\<close> and \<open>'REDO'\<close> for the log only.
\<close>

datatype action_type = ADD | EDIT | DELETE | UNDO | REDO

text \<open>
  The \<open>details\<close> dictionaries handed to \<open>log_action\<close>; the table stores their JSON
  text, the model keeps the value.
\<close>

datatype details =
    AddDetails "pystr option" int int "pystr option"
  | EditDetails pystr pystr "pystr option" int int
  | Deleted
  | OriginalAction action_type

record action_log =
  al_id :: int
  al_action_type :: action_type
  al_student_name :: pystr
  al_student_id :: "int option"
  al_details :: "details option"
  al_timestamp :: int

text \<open>The lightweight dictionary appended to \<open>action_log_queue\<close>.\<close>

record queue_entry =
  q_id :: int
  q_action_type :: action_type
  q_student_name :: pystr
  q_student_id :: "int option"
  q_timestamp :: int

text \<open>
  The \<open>data\<close> dictionary of a history entry: \<open>get_student_snapshot\<close> fills the key
  \<open>'id'\<close>, the dictionary built by \<open>add_student\<close> has no such key.
\<close>

record snapshot =
  d_id :: "int option"
  d_name :: pystr
  d_program :: "pystr option"
  d_total_hours :: int
  d_completed_hours :: int
  d_picture :: "pystr option"

record undo_entry =
  e_student_id :: int
  e_action_type :: action_type
  e_data :: snapshot

text \<open>The messages handed to \<open>flash\<close> (the name inside a message is its argument).\<close>

datatype flash_msg =
    NothingToUndo
  | UndoRestored pystr
  | UndoDeleted pystr
  | UndoFailedNotFound
  | UndoFailed
  | NothingToRedo
  | RedoDeleted pystr
  | RedoUpdated pystr
  | RedoAdded pystr
  | RedoFailed
  | StudentAdded pystr
  | StudentUpdated pystr
  | StudentDeleted pystr
  | StudentRecordNotFound
  | AlreadyCompleted
  | AlreadyClockedIn
  | ClockedInAt int

section \<open>The store and the process state\<close>

record store =
  students :: "student list"
  time_entries :: "time_entry list"
  action_logs :: "action_log list"

text \<open>
  The state of the process: the committed store, the three module globals
  (\<open>action_log_queue\<close>, \<open>undo_stack\<close>, \<open>redo_stack\<close>; a Python list used as a stack has
  its top at the end), the flashed messages, the reading of the clock, and the outcomes
  of the coming \<open>db.session.commit()\<close> calls (\<open>True\<close>: that commit raises).
\<close>

record world =
  db :: store
  action_log_queue :: "queue_entry list"
  undo_stack :: "undo_entry list"
  redo_stack :: "undo_entry list"
  flashes :: "flash_msg list"
  utcnow :: int
  commit_faults :: "bool list"

definition flash :: "flash_msg \<Rightarrow> world \<Rightarrow> world" where
  "flash msg w = w\<lparr>flashes := flashes w @ [msg]\<rparr>"

text \<open>
  \<open>db.session.commit()\<close> of the pending store \<open>st\<close>: it either makes \<open>st\<close> the
  committed store, or raises (\<open>Inl\<close>) and leaves the committed store as it was.
\<close>

definition commit :: "store \<Rightarrow> world \<Rightarrow> world + world" where
  "commit st w =
     (case commit_faults w of
        [] \<Rightarrow> Inr (w\<lparr>db := st\<rparr>)
      | f # fs \<Rightarrow>
          if f then Inl (w\<lparr>commit_faults := fs\<rparr>)
          else Inr (w\<lparr>db := st, commit_faults := fs\<rparr>))"

text \<open>An integer primary key left to the store: one more than the largest in use.\<close>

definition next_id :: "int list \<Rightarrow> int" where
  "next_id ids = (case ids of [] \<Rightarrow> 1 | i # js \<Rightarrow> fold max js i + 1)"

text \<open>\<open>Student.query.get(student_id)\<close>.\<close>

definition get_student :: "int \<Rightarrow> world \<Rightarrow> student option" where
  "get_student student_id w = find (\<lambda>s. s_id s = student_id) (students (db w))"

section \<open>Audit log\<close>

text \<open>\<open>append\<close> on a \<open>deque\<close> with \<open>maxlen\<close>: add on the right, then trim on the left.\<close>

definition deque_append :: "nat \<Rightarrow> 'a list \<Rightarrow> 'a \<Rightarrow> 'a list" where
  "deque_append maxlen q x = (let q' = q @ [x] in if maxlen < length q' then tl q' else q')"

definition queue_entry_of :: "action_log \<Rightarrow> queue_entry" where
  "queue_entry_of action =
     \<lparr>q_id = al_id action, q_action_type = al_action_type action,
      q_student_name = al_student_name action, q_student_id = al_student_id action,
      q_timestamp = al_timestamp action\<rparr>"

definition log_action ::
    "action_type \<Rightarrow> pystr \<Rightarrow> int option \<Rightarrow> details option \<Rightarrow> world \<Rightarrow> world + world" where
  "log_action action_type student_name student_id details w =
     (let action =
            \<lparr>al_id = next_id (map al_id (action_logs (db w))),
             al_action_type = action_type, al_student_name = student_name,
             al_student_id = student_id, al_details = details,
             al_timestamp = utcnow w\<rparr>
      in case commit ((db w)\<lparr>action_logs := action_logs (db w) @ [action]\<rparr>) w of
           Inl w' \<Rightarrow> Inl w'
         | Inr w' \<Rightarrow>
             Inr (w'\<lparr>action_log_queue :=
                        deque_append 100 (action_log_queue w') (queue_entry_of action)\<rparr>))"

section \<open>Command history\<close>

definition save_to_undo_stack :: "int \<Rightarrow> action_type \<Rightarrow> snapshot \<Rightarrow> world \<Rightarrow> world" where
  "save_to_undo_stack student_id action_type student_data w =
     (let undo_entry =
            \<lparr>e_student_id = student_id, e_action_type = action_type, e_data = student_data\<rparr>
      in w\<lparr>undo_stack := undo_stack w @ [undo_entry], redo_stack := []\<rparr>)"

definition get_student_snapshot :: "student \<Rightarrow> snapshot" where
  "get_student_snapshot student =
     \<lparr>d_id = Some (s_id student), d_name = s_name student, d_program = s_program student,
      d_total_hours = s_total_hours student, d_completed_hours = s_completed_hours student,
      d_picture = s_picture student\<rparr>"

text \<open>The five assignments \<open>student.name = data['name']\<close> ... of \<open>undo\<close> and \<open>redo\<close>.\<close>

definition assign_fields :: "snapshot \<Rightarrow> student \<Rightarrow> student" where
  "assign_fields data s =
     s\<lparr>s_name := d_name data, s_program := d_program data,
       s_total_hours := d_total_hours data, s_completed_hours := d_completed_hours data,
       s_picture := d_picture data\<rparr>"

definition update_student :: "int \<Rightarrow> snapshot \<Rightarrow> store \<Rightarrow> store" where
  "update_student student_id data st =
     st\<lparr>students := map (\<lambda>s. if s_id s = student_id then assign_fields data s else s) (students st)\<rparr>"

text \<open>\<open>Student(id=student_id, name=data['name'], ...)\<close> added to the session.\<close>

definition create_student :: "int \<Rightarrow> snapshot \<Rightarrow> store \<Rightarrow> store" where
  "create_student student_id data st =
     st\<lparr>students := students st @
        [\<lparr>s_id = student_id, s_name = d_name data, s_program = d_program data,
          s_total_hours = d_total_hours data, s_completed_hours = d_completed_hours data,
          s_picture = d_picture data\<rparr>]\<rparr>"

text \<open>
  \<open>TimeEntry.query.filter_by(student_id=student_id).delete()\<close> followed by
  \<open>db.session.delete(student)\<close>.
\<close>

definition remove_student :: "int \<Rightarrow> store \<Rightarrow> store" where
  "remove_student student_id st =
     st\<lparr>time_entries := filter (\<lambda>e. te_student_id e \<noteq> student_id) (time_entries st),
        students := filter (\<lambda>s. s_id s \<noteq> student_id) (students st)\<rparr>"

text \<open>
  The body of the \<open>try\<close> block of \<open>undo\<close>, run after the entry was popped. \<open>Inl\<close> is an
  exception raised by the store, with the state at that moment.
\<close>

definition undo_try :: "undo_entry \<Rightarrow> world \<Rightarrow> world + world" where
  "undo_try undo_entry w =
     (let student_id = e_student_id undo_entry;
          action_type = e_action_type undo_entry;
          data = e_data undo_entry
      in
        if action_type = EDIT then
          (case get_student student_id w of
             Some student \<Rightarrow>
               (case commit (update_student student_id data (db w)) w of
                  Inl w' \<Rightarrow> Inl w'
                | Inr w' \<Rightarrow>
                    log_action UNDO (d_name data) (Some student_id) (Some (OriginalAction EDIT))
                      (flash (UndoRestored (d_name data)) w'))
           | None \<Rightarrow> Inr w)
        else if action_type = ADD then
          (case get_student student_id w of
             Some student \<Rightarrow>
               (case commit (remove_student student_id (db w)) w of
                  Inl w' \<Rightarrow> Inl w'
                | Inr w' \<Rightarrow>
                    (case log_action UNDO (s_name student) (Some student_id)
                            (Some (OriginalAction ADD)) (flash (UndoDeleted (s_name student)) w') of
                       Inl w'' \<Rightarrow> Inl w''
                     | Inr w'' \<Rightarrow> Inr (w''\<lparr>redo_stack := redo_stack w'' @ [undo_entry]\<rparr>)))
           | None \<Rightarrow>
               Inr ((flash UndoFailedNotFound w)\<lparr>undo_stack := undo_stack w @ [undo_entry]\<rparr>))
        else if action_type = DELETE then
          (case commit
                  (case get_student student_id w of
                     Some existing \<Rightarrow> update_student student_id data (db w)
                   | None \<Rightarrow> create_student student_id data (db w)) w of
             Inl w' \<Rightarrow> Inl w'
           | Inr w' \<Rightarrow>
               (case log_action UNDO (d_name data) (Some student_id)
                       (Some (OriginalAction DELETE)) (flash (UndoRestored (d_name data)) w') of
                  Inl w'' \<Rightarrow> Inl w''
                | Inr w'' \<Rightarrow> Inr (w''\<lparr>redo_stack := redo_stack w'' @ [undo_entry]\<rparr>)))
        else Inr w)"

text \<open>\<open>undo\<close>; its response is always the redirect to the dashboard.\<close>

definition undo :: "world \<Rightarrow> world" where
  "undo w =
     (if undo_stack w = [] then flash NothingToUndo w
      else
        let undo_entry = last (undo_stack w);
            w1 = w\<lparr>undo_stack := butlast (undo_stack w)\<rparr>
        in case undo_try undo_entry w1 of
             Inr w' \<Rightarrow> w'
           | Inl w' \<Rightarrow> (flash UndoFailed w')\<lparr>undo_stack := undo_stack w' @ [undo_entry]\<rparr>)"

definition redo_try :: "undo_entry \<Rightarrow> world \<Rightarrow> world + world" where
  "redo_try redo_entry w =
     (let student_id = e_student_id redo_entry;
          action_type = e_action_type redo_entry;
          data = e_data redo_entry
      in
        if action_type = DELETE then
          (case get_student student_id w of
             Some student \<Rightarrow>
               (case commit (remove_student student_id (db w)) w of
                  Inl w' \<Rightarrow> Inl w'
                | Inr w' \<Rightarrow>
                    (case log_action REDO (d_name data) (Some student_id)
                            (Some (OriginalAction DELETE)) (flash (RedoDeleted (d_name data)) w') of
                       Inl w'' \<Rightarrow> Inl w''
                     | Inr w'' \<Rightarrow> Inr (w''\<lparr>undo_stack := undo_stack w'' @ [redo_entry]\<rparr>)))
           | None \<Rightarrow> Inr w)
        else if action_type = EDIT then
          (case get_student student_id w of
             Some student \<Rightarrow>
               (case commit (update_student student_id data (db w)) w of
                  Inl w' \<Rightarrow> Inl w'
                | Inr w' \<Rightarrow>
                    (case log_action REDO (d_name data) (Some student_id)
                            (Some (OriginalAction EDIT)) (flash (RedoUpdated (d_name data)) w') of
                       Inl w'' \<Rightarrow> Inl w''
                     | Inr w'' \<Rightarrow> Inr (w''\<lparr>undo_stack := undo_stack w'' @ [redo_entry]\<rparr>)))
           | None \<Rightarrow> Inr w)
        else if action_type = ADD then
          (case commit
                  (case get_student student_id w of
                     Some existing \<Rightarrow> update_student student_id data (db w)
                   | None \<Rightarrow> create_student student_id data (db w)) w of
             Inl w' \<Rightarrow> Inl w'
           | Inr w' \<Rightarrow>
               (case log_action REDO (d_name data) (Some student_id)
                       (Some (OriginalAction ADD)) (flash (RedoAdded (d_name data)) w') of
                  Inl w'' \<Rightarrow> Inl w''
                | Inr w'' \<Rightarrow> Inr (w''\<lparr>undo_stack := undo_stack w'' @ [redo_entry]\<rparr>)))
        else Inr w)"

definition redo :: "world \<Rightarrow> world" where
  "redo w =
     (if redo_stack w = [] then flash NothingToRedo w
      else
        let redo_entry = last (redo_stack w);
            w1 = w\<lparr>redo_stack := butlast (redo_stack w)\<rparr>
        in case redo_try redo_entry w1 of
             Inr w' \<Rightarrow> w'
           | Inl w' \<Rightarrow> (flash RedoFailed w')\<lparr>redo_stack := redo_stack w' @ [redo_entry]\<rparr>)"

section \<open>Mutation service\<close>

text \<open>What a route handler answers.\<close>

datatype response =
    RedirectDashboard
  | RedirectStudentLogin
  | RedirectStudentDashboard
  | Abort404
  | Uncaught
  | AlreadyClockedInPage
  | ClockedInPage int

text \<open>
  The \<open>POST\<close> branches of the three handlers, from the parsed form on: the fields are the
  arguments, \<open>picture_filename\<close> is the name under which an accepted upload was saved.
  None of the three catches an exception of the store (\<open>Uncaught\<close>).
\<close>

definition add_student ::
    "pystr \<Rightarrow> pystr option \<Rightarrow> int \<Rightarrow> int \<Rightarrow> pystr option \<Rightarrow> world \<Rightarrow> response \<times> world" where
  "add_student name program total_hours completed_hours picture_filename w =
     (let new_id = next_id (map s_id (students (db w)));
          new_student =
            \<lparr>s_id = new_id, s_name = name, s_program = program, s_total_hours = total_hours,
             s_completed_hours = completed_hours, s_picture = picture_filename\<rparr>
      in case commit ((db w)\<lparr>students := students (db w) @ [new_student]\<rparr>) w of
           Inl w' \<Rightarrow> (Uncaught, w')
         | Inr w' \<Rightarrow>
             (let student_data =
                    \<lparr>d_id = None, d_name = name, d_program = program,
                     d_total_hours = total_hours, d_completed_hours = completed_hours,
                     d_picture = picture_filename\<rparr>;
                  w2 = save_to_undo_stack new_id ADD student_data w'
              in case log_action ADD name (Some new_id)
                        (Some (AddDetails program total_hours completed_hours picture_filename)) w2 of
                   Inl w3 \<Rightarrow> (Uncaught, w3)
                 | Inr w3 \<Rightarrow> (RedirectDashboard, flash (StudentAdded name) w3)))"

definition edit_student ::
    "int \<Rightarrow> pystr \<Rightarrow> pystr option \<Rightarrow> int \<Rightarrow> int \<Rightarrow> pystr option \<Rightarrow> world \<Rightarrow> response \<times> world" where
  "edit_student student_id name program total_hours completed_hours picture_filename w =
     (case get_student student_id w of
        None \<Rightarrow> (Abort404, w)
      | Some student \<Rightarrow>
          (let w1 = save_to_undo_stack student_id EDIT (get_student_snapshot student) w;
               old_name = s_name student;
               edited = (\<lambda>s. s\<lparr>s_name := name, s_program := program,
                                s_total_hours := total_hours,
                                s_completed_hours := completed_hours,
                                s_picture := (case picture_filename of
                                                Some filename \<Rightarrow> Some filename
                                              | None \<Rightarrow> s_picture s)\<rparr>)
           in case commit ((db w1)\<lparr>students :=
                              map (\<lambda>s. if s_id s = student_id then edited s else s)
                                (students (db w1))\<rparr>) w1 of
                Inl w2 \<Rightarrow> (Uncaught, w2)
              | Inr w2 \<Rightarrow>
                  (case log_action EDIT name (Some student_id)
                          (Some (EditDetails old_name name program total_hours completed_hours)) w2 of
                     Inl w3 \<Rightarrow> (Uncaught, w3)
                   | Inr w3 \<Rightarrow> (RedirectDashboard, flash (StudentUpdated name) w3))))"

definition delete_student :: "int \<Rightarrow> world \<Rightarrow> response \<times> world" where
  "delete_student student_id w =
     (case get_student student_id w of
        None \<Rightarrow> (Abort404, w)
      | Some student \<Rightarrow>
          (let student_name = s_name student;
               w1 = save_to_undo_stack student_id DELETE (get_student_snapshot student) w
           in case commit (remove_student student_id (db w1)) w1 of
                Inl w2 \<Rightarrow> (Uncaught, w2)
              | Inr w2 \<Rightarrow>
                  (case log_action DELETE student_name (Some student_id) (Some Deleted) w2 of
                     Inl w3 \<Rightarrow> (Uncaught, w3)
                   | Inr w3 \<Rightarrow> (RedirectDashboard, flash (StudentDeleted student_name) w3))))"

section \<open>Clock-in\<close>

text \<open>\<open>TimeEntry.query.filter_by(student_id=..., clock_out=None).first()\<close>.\<close>

definition open_entry :: "int \<Rightarrow> world \<Rightarrow> time_entry option" where
  "open_entry student_id w =
     find (\<lambda>e. te_student_id e = student_id \<and> te_clock_out e = None) (time_entries (db w))"

definition new_time_entry :: "int \<Rightarrow> int \<Rightarrow> store \<Rightarrow> store" where
  "new_time_entry student_id now st =
     st\<lparr>time_entries := time_entries st @
        [\<lparr>te_id = next_id (map te_id (time_entries st)), te_student_id = student_id,
          te_clock_in = now, te_clock_out = None\<rparr>]\<rparr>"

text \<open>The administrator's route \<open>/student/<id>/clock_in\<close>.\<close>

definition clock_in :: "int \<Rightarrow> world \<Rightarrow> response \<times> world" where
  "clock_in student_id w =
     (case get_student student_id w of
        None \<Rightarrow> (Abort404, w)
      | Some student \<Rightarrow>
          (case open_entry student_id w of
             Some entry \<Rightarrow> (AlreadyClockedInPage, w)
           | None \<Rightarrow>
               (let now = utcnow w
                in case commit (new_time_entry student_id now (db w)) w of
                     Inl w' \<Rightarrow> (Uncaught, w')
                   | Inr w' \<Rightarrow> (ClockedInPage now, w'))))"

text \<open>
  The student's own route \<open>/student/clock_in\<close>; the argument is
  \<open>session.get("student_id")\<close>, and \<open>not sid\<close> holds of \<open>None\<close> and of \<open>0\<close>.
\<close>

definition student_clock_in :: "int option \<Rightarrow> world \<Rightarrow> response \<times> world" where
  "student_clock_in session_student_id w =
     (case session_student_id of
        None \<Rightarrow> (RedirectStudentLogin, w)
      | Some sid \<Rightarrow>
          if sid = 0 then (RedirectStudentLogin, w)
          else
            (case get_student sid w of
               None \<Rightarrow> (RedirectStudentLogin, flash StudentRecordNotFound w)
             | Some student \<Rightarrow>
                 if s_total_hours student \<noteq> 0
                    \<and> s_completed_hours student \<ge> s_total_hours student
                 then (RedirectStudentDashboard, flash AlreadyCompleted w)
                 else
                   (case open_entry sid w of
                      Some entry \<Rightarrow> (RedirectStudentDashboard, flash AlreadyClockedIn w)
                    | None \<Rightarrow>
                        (let now = utcnow w
                         in case commit (new_time_entry sid now (db w)) w of
                              Inl w' \<Rightarrow> (Uncaught, w')
                            | Inr w' \<Rightarrow>
                                (RedirectStudentDashboard, flash (ClockedInAt now) w')))))"

section \<open>Merge sort\<close>

text \<open>
  The loop of \<open>merge\<close> advances \<open>i\<close> in \<open>left\<close> and \<open>j\<close> in \<open>right\<close>; the recursion is on
  what is left of both, \<open>left[i:]\<close> and \<open>right[j:]\<close>, and the two \<open>extend\<close> calls are the
  equations for an exhausted side.
\<close>

fun merge :: "'a list \<Rightarrow> 'a list \<Rightarrow> ('a \<Rightarrow> 'k::linorder) \<Rightarrow> bool \<Rightarrow> 'a list" where
  "merge (l # left) (r # right) key reverse =
     (if reverse then
        (if key l > key r then l # merge left (r # right) key reverse
         else r # merge (l # left) right key reverse)
      else
        (if key l < key r then l # merge left (r # right) key reverse
         else r # merge (l # left) right key reverse))"
| "merge [] right key reverse = right"
| "merge left [] key reverse = left"

function merge_sort :: "'a list \<Rightarrow> ('a \<Rightarrow> 'k::linorder) \<Rightarrow> bool \<Rightarrow> 'a list" where
  "merge_sort data key reverse =
     (if length data \<le> 1 then data
      else
        merge (merge_sort (take (length data div 2) data) key reverse)
              (merge_sort (drop (length data div 2) data) key reverse) key reverse)"
  by pat_completeness auto
termination
  by (relation "measure (\<lambda>(data, key, reverse). length data)") auto

declare merge_sort.simps [simp del]

text \<open>
  The sort of the listing in \<open>admin_dashboard\<close>, one call of \<open>merge_sort\<close> for each value of
  the request argument \<open>sort\<close> (\<open>sort_by\<close>); any other value leaves the list as it is. \<open>lower\<close> is
  Python's \<open>str.lower\<close>.
\<close>

datatype sort_column =
  SortName | SortProgram | SortTotalHours | SortCompletedHours | SortRemainingHours
  | SortStatus | SortOther

definition remaining_hours :: "student \<Rightarrow> int" where
  "remaining_hours x = s_total_hours x - s_completed_hours x"

definition status_key :: "student \<Rightarrow> int" where
  "status_key x =
     (if s_total_hours x \<noteq> 0 \<and> s_completed_hours x \<ge> s_total_hours x then 0 else 1)"

definition program_or_empty :: "student \<Rightarrow> pystr" where
  "program_or_empty x = (case s_program x of None \<Rightarrow> [] | Some p \<Rightarrow> p)"

definition dashboard_sort ::
    "(pystr \<Rightarrow> pystr) \<Rightarrow> sort_column \<Rightarrow> bool \<Rightarrow> student list \<Rightarrow> student list" where
  "dashboard_sort lower sort_by reverse xs =
     (case sort_by of
        SortName \<Rightarrow> merge_sort xs (\<lambda>x. lower (s_name x)) reverse
      | SortProgram \<Rightarrow> merge_sort xs (\<lambda>x. lower (program_or_empty x)) reverse
      | SortTotalHours \<Rightarrow> merge_sort xs s_total_hours reverse
      | SortCompletedHours \<Rightarrow> merge_sort xs s_completed_hours reverse
      | SortRemainingHours \<Rightarrow> merge_sort xs remaining_hours reverse
      | SortStatus \<Rightarrow> merge_sort xs status_key reverse
      | SortOther \<Rightarrow> xs)"

section \<open>Binary prefix search\<close>

definition startswith :: "pystr \<Rightarrow> pystr \<Rightarrow> bool" where
  "startswith s prefix = (take (length prefix) s = prefix)"

text \<open>
  The two \<open>while lo <= hi\<close> loops; the last argument is the variable the loop assigns
  (\<open>left\<close>, \<open>right\<close>). Both start from \<open>lo = 0\<close> and \<open>hi = len(names) - 1\<close>, so \<open>mid\<close> is
  an index of \<open>names\<close> whenever it is read.
\<close>

function left_loop :: "pystr list \<Rightarrow> pystr \<Rightarrow> int \<Rightarrow> int \<Rightarrow> int \<Rightarrow> int" where
  "left_loop names prefix lo hi left =
     (if lo \<le> hi then
        (if names ! nat ((lo + hi) div 2) \<ge> prefix
         then left_loop names prefix lo ((lo + hi) div 2 - 1) ((lo + hi) div 2)
         else left_loop names prefix ((lo + hi) div 2 + 1) hi left)
      else left)"
  by pat_completeness auto
termination
  by (relation "measure (\<lambda>(names, prefix, lo, hi, left). nat (hi - lo + 1))") auto

function right_loop :: "pystr list \<Rightarrow> pystr \<Rightarrow> int \<Rightarrow> int \<Rightarrow> int \<Rightarrow> int" where
  "right_loop names hi_key lo hi right =
     (if lo \<le> hi then
        (if names ! nat ((lo + hi) div 2) > hi_key
         then right_loop names hi_key lo ((lo + hi) div 2 - 1) ((lo + hi) div 2)
         else right_loop names hi_key ((lo + hi) div 2 + 1) hi right)
      else right)"
  by pat_completeness auto
termination
  by (relation "measure (\<lambda>(names, hi_key, lo, hi, right). nat (hi - lo + 1))") auto

declare left_loop.simps [simp del] right_loop.simps [simp del]

text \<open>\<open>students[left:right]\<close> for indices that are not negative.\<close>

definition slice :: "'a list \<Rightarrow> int \<Rightarrow> int \<Rightarrow> 'a list" where
  "slice xs left right = drop (nat left) (take (nat right) xs)"

definition binary_prefix_search_students ::
    "(pystr \<Rightarrow> pystr) \<Rightarrow> student list \<Rightarrow> pystr \<Rightarrow> student list" where
  "binary_prefix_search_students lower xs prefix0 =
     (let prefix = lower prefix0
      in if prefix = [] then xs
         else
           let names = map (\<lambda>s. lower (s_name s)) xs;
               left = left_loop names prefix 0 (int (length names) - 1) (int (length names));
               hi_key = prefix @ [0xFFFF];
               right = right_loop names hi_key 0 (int (length names) - 1) (int (length names))
           in filter (\<lambda>s. startswith (lower (s_name s)) prefix) (slice xs left right))"

text \<open>
  \<open>str.lower\<close> on ASCII text, where it maps \<open>A\<close>..\<open>Z\<close> to \<open>a\<close>..\<open>z\<close> and nothing else;
  \<open>ascii\<close> reads a literal as a Python string.
\<close>

definition ascii_lower :: "pystr \<Rightarrow> pystr" where
  "ascii_lower s = map (\<lambda>c. if 65 \<le> c \<and> c \<le> 90 then c + 32 else c) s"

definition ascii :: "string \<Rightarrow> pystr" where
  "ascii s = map of_char s"

section \<open>Notions used in the statements\<close>

text \<open>A sequence of \<open>log_action\<close> calls, each in a request of its own: a call that raises
  ends its request, and the next call starts from the state it left.\<close>

fun log_actions ::
    "(action_type \<times> pystr \<times> int option \<times> details option) list \<Rightarrow> world \<Rightarrow> world" where
  "log_actions [] w = w"
| "log_actions ((a, n, i, d) # calls) w =
     log_actions calls (case log_action a n i d w of Inl w' \<Rightarrow> w' | Inr w' \<Rightarrow> w')"

text \<open>The open time entries of a student, those whose \<open>clock_out\<close> is null.\<close>

definition open_entries :: "int \<Rightarrow> world \<Rightarrow> time_entry list" where
  "open_entries student_id w =
     filter (\<lambda>e. te_student_id e = student_id \<and> te_clock_out e = None) (time_entries (db w))"

text \<open>
  \<open>in_order reverse ks\<close>: the keys \<open>ks\<close> are in the order asked for, ascending, or
  descending when \<open>reverse\<close> is set.
\<close>

definition in_order :: "bool \<Rightarrow> ('k::linorder) list \<Rightarrow> bool" where
  "in_order reverse ks = (if reverse then sorted (rev ks) else sorted ks)"

subsection \<open>Example states\<close>

text \<open>The process right after its start on an empty store.\<close>

definition fresh_world :: world where
  "fresh_world =
     \<lparr>db = \<lparr>students = [], time_entries = [], action_logs = []\<rparr>,
      action_log_queue = [], undo_stack = [], redo_stack = [], flashes = [],
      utcnow = 0, commit_faults = []\<rparr>"

definition alice :: student where
  "alice = \<lparr>s_id = 1, s_name = ascii ''Alice'', s_program = None, s_total_hours = 10,
            s_completed_hours = 0, s_picture = None\<rparr>"

definition alice_world :: world where
  "alice_world = fresh_world\<lparr>db := \<lparr>students = [alice], time_entries = [], action_logs = []\<rparr>\<rparr>"

text \<open>Alice in the store, and the addition of a second student undone and waiting for redo.\<close>

definition redoable_world :: world where
  "redoable_world =
     alice_world\<lparr>redo_stack :=
       [\<lparr>e_student_id = 2, e_action_type = ADD,
         e_data = \<lparr>d_id = None, d_name = ascii ''Bob'', d_program = None, d_total_hours = 20,
                   d_completed_hours = 0, d_picture = None\<rparr>\<rparr>]\<rparr>"

text \<open>An \<open>EDIT\<close> entry on top of the undo stack whose student 7 is not in the store.\<close>

definition orphan_edit_world :: world where
  "orphan_edit_world =
     fresh_world\<lparr>undo_stack :=
       [\<lparr>e_student_id = 7, e_action_type = EDIT,
         e_data = get_student_snapshot (alice\<lparr>s_id := 7\<rparr>)\<rparr>]\<rparr>"

text \<open>Alice clocked in at time 5 and not yet out.\<close>

definition clocked_in_world :: world where
  "clocked_in_world =
     fresh_world\<lparr>db :=
       \<lparr>students = [alice],
        time_entries = [\<lparr>te_id = 1, te_student_id = 1, te_clock_in = 5, te_clock_out = None\<rparr>],
        action_logs = []\<rparr>\<rparr>"

text \<open>Alice with all her hours completed, and no time entry.\<close>

definition graduate_world :: world where
  "graduate_world =
     fresh_world\<lparr>db :=
       \<lparr>students = [alice\<lparr>s_completed_hours := 10\<rparr>], time_entries = [], action_logs = []\<rparr>\<rparr>"

text \<open>Two students that agree on every sort key: the names differ in case only.\<close>

definition ann1 :: student where
  "ann1 = \<lparr>s_id = 1, s_name = ascii ''Ann'', s_program = Some (ascii ''BSIT''),
           s_total_hours = 10, s_completed_hours = 0, s_picture = None\<rparr>"

definition ann2 :: student where
  "ann2 = \<lparr>s_id = 2, s_name = ascii ''ANN'', s_program = Some (ascii ''bsit''),
           s_total_hours = 10, s_completed_hours = 0, s_picture = None\<rparr>"

definition named :: "int \<Rightarrow> pystr \<Rightarrow> student" where
  "named i n = \<lparr>s_id = i, s_name = n, s_program = None, s_total_hours = 10,
                 s_completed_hours = 0, s_picture = None\<rparr>"

section \<open>Store and log lemmas\<close>

lemma commit_cases:
  "commit st w = Inr w' \<Longrightarrow> w' = w\<lparr>db := st, commit_faults := tl (commit_faults w)\<rparr>"
  "commit st w = Inl w' \<Longrightarrow> w' = w\<lparr>commit_faults := tl (commit_faults w)\<rparr>"
  by (auto simp: commit_def split: list.splits if_splits)

lemma log_action_Inr:
  "log_action a n i d w = Inr w' \<Longrightarrow>
     redo_stack w' = redo_stack w \<and> undo_stack w' = undo_stack w \<and> flashes w' = flashes w
     \<and> students (db w') = students (db w) \<and> time_entries (db w') = time_entries (db w)"
  by (auto simp: log_action_def Let_def split: sum.splits dest!: commit_cases)

lemma log_action_Inl:
  "log_action a n i d w = Inl w' \<Longrightarrow> w' = w\<lparr>commit_faults := tl (commit_faults w)\<rparr>"
  by (auto simp: log_action_def Let_def split: sum.splits dest!: commit_cases)

lemma log_action_queue_Inr:
  "log_action a n i d w = Inr w' \<Longrightarrow>
     action_logs (db w') = action_logs (db w) @
        [\<lparr>al_id = next_id (map al_id (action_logs (db w))), al_action_type = a,
          al_student_name = n, al_student_id = i, al_details = d, al_timestamp = utcnow w\<rparr>]
     \<and> action_log_queue w' =
         deque_append 100 (action_log_queue w) (queue_entry_of (last (action_logs (db w'))))
     \<and> commit_faults w' = tl (commit_faults w)"
  by (auto simp: log_action_def Let_def split: sum.splits dest!: commit_cases)

lemma log_action_total_no_faults:
  "commit_faults w = [] \<Longrightarrow> \<exists>w'. log_action a n i d w = Inr w'"
  by (simp add: log_action_def Let_def commit_def)

section \<open>Undo and redo on an empty stack\<close>

lemma redo_empty: "redo_stack w = [] \<Longrightarrow> redo w = flash NothingToRedo w"
  by (simp add: redo_def)

text \<open>
  Claim C9. \<open>undo\<close> on an empty undo stack is a no-op: the store, the queue and both
  stacks are as before, and the only effect is the message that there is nothing to undo.
\<close>

theorem undo_on_empty_stack:
  "undo_stack w = [] \<Longrightarrow> undo w = w\<lparr>flashes := flashes w @ [NothingToUndo]\<rparr>"
  by (simp add: undo_def flash_def)

theorem undo_on_empty_stack_witness:
  "undo_stack redoable_world = []
   \<and> undo redoable_world = redoable_world\<lparr>flashes := flashes redoable_world @ [NothingToUndo]\<rparr>"
proof -
  have h: "undo_stack redoable_world = []"
    by (simp add: redoable_world_def alice_world_def fresh_world_def)
  from h undo_on_empty_stack [OF h] show ?thesis by blast
qed

section \<open>A new action clears the redo stack\<close>

lemma add_student_redo_stack:
  "add_student n p t c pic w = (RedirectDashboard, w') \<Longrightarrow> redo_stack w' = []"
  by (auto simp: add_student_def Let_def flash_def save_to_undo_stack_def
      split: sum.splits dest!: commit_cases log_action_Inr)

lemma edit_student_redo_stack:
  "edit_student sid n p t c pic w = (RedirectDashboard, w') \<Longrightarrow> redo_stack w' = []"
  by (auto simp: edit_student_def Let_def flash_def save_to_undo_stack_def
      split: sum.splits option.splits dest!: commit_cases log_action_Inr)

lemma delete_student_redo_stack:
  "delete_student sid w = (RedirectDashboard, w') \<Longrightarrow> redo_stack w' = []"
  by (auto simp: delete_student_def Let_def flash_def save_to_undo_stack_def
      split: sum.splits option.splits dest!: commit_cases log_action_Inr)

text \<open>
  Claim C4. \<open>save_to_undo_stack\<close> always leaves the redo stack empty, whatever the stacks
  held before, and so does every addition, edit or deletion of a student that went
  through; a \<open>redo\<close> after it only reports that there is nothing to redo.
\<close>

theorem new_action_clears_redo_stack:
  "redo_stack (save_to_undo_stack sid a d w) = []
   \<and> redo (save_to_undo_stack sid a d w) = flash NothingToRedo (save_to_undo_stack sid a d w)
   \<and> (add_student n p t c pic w = (RedirectDashboard, w1)
        \<longrightarrow> redo_stack w1 = [] \<and> redo w1 = flash NothingToRedo w1)
   \<and> (edit_student sid n' p' t' c' pic' w = (RedirectDashboard, w2)
        \<longrightarrow> redo_stack w2 = [] \<and> redo w2 = flash NothingToRedo w2)
   \<and> (delete_student sid w = (RedirectDashboard, w3)
        \<longrightarrow> redo_stack w3 = [] \<and> redo w3 = flash NothingToRedo w3)"
proof -
  have "redo_stack (save_to_undo_stack sid a d w) = []"
    by (simp add: save_to_undo_stack_def)
  then show ?thesis
    by (simp add: redo_empty add_student_redo_stack edit_student_redo_stack
        delete_student_redo_stack)
qed

theorem new_action_clears_redo_stack_witness:
  "redo_stack redoable_world \<noteq> []
   \<and> add_student (ascii ''Carol'') None 30 0 None redoable_world
       = (RedirectDashboard, snd (add_student (ascii ''Carol'') None 30 0 None redoable_world))
   \<and> edit_student 1 (ascii ''Alice'') None 10 5 None redoable_world
       = (RedirectDashboard, snd (edit_student 1 (ascii ''Alice'') None 10 5 None redoable_world))
   \<and> delete_student 1 redoable_world = (RedirectDashboard, snd (delete_student 1 redoable_world))
   \<and> redo_stack (snd (add_student (ascii ''Carol'') None 30 0 None redoable_world)) = []
   \<and> redo (snd (edit_student 1 (ascii ''Alice'') None 10 5 None redoable_world))
       = flash NothingToRedo (snd (edit_student 1 (ascii ''Alice'') None 10 5 None redoable_world))
   \<and> redo (snd (delete_student 1 redoable_world))
       = flash NothingToRedo (snd (delete_student 1 redoable_world))"
proof -
  have r: "redo_stack redoable_world \<noteq> []"
    by code_simp
  have a: "add_student (ascii ''Carol'') None 30 0 None redoable_world
       = (RedirectDashboard, snd (add_student (ascii ''Carol'') None 30 0 None redoable_world))"
    by code_simp
  have e: "edit_student 1 (ascii ''Alice'') None 10 5 None redoable_world
       = (RedirectDashboard, snd (edit_student 1 (ascii ''Alice'') None 10 5 None redoable_world))"
    by code_simp
  have d: "delete_student 1 redoable_world = (RedirectDashboard, snd (delete_student 1 redoable_world))"
    by code_simp
  from r a e d
    new_action_clears_redo_stack [where sid = 1 and w = redoable_world
      and n = "ascii ''Carol''" and p = None and t = 30 and c = 0 and pic = None
      and ?w1.0 = "snd (add_student (ascii ''Carol'') None 30 0 None redoable_world)"
      and n' = "ascii ''Alice''" and p' = None and t' = 10 and c' = 5 and pic' = None
      and ?w2.0 = "snd (edit_student 1 (ascii ''Alice'') None 10 5 None redoable_world)"
      and ?w3.0 = "snd (delete_student 1 redoable_world)"]
  show ?thesis by blast
qed

section \<open>The bounded mirror of the audit log\<close>

lemma deque_append_length: "length q \<le> n \<Longrightarrow> length (deque_append n q x) \<le> n"
  by (auto simp: deque_append_def Let_def)

lemma deque_append_fifo:
  "length q \<le> n \<Longrightarrow> 0 < n \<Longrightarrow>
     deque_append n q x = (if length q < n then q else tl q) @ [x]"
  by (cases q) (auto simp: deque_append_def Let_def)

lemma log_actions_bounded:
  "length (action_log_queue w) \<le> 100 \<Longrightarrow> length (action_log_queue (log_actions calls w)) \<le> 100"
proof (induction calls arbitrary: w)
  case Nil
  then show ?case by simp
next
  case (Cons call calls)
  obtain a n i d where call: "call = (a, n, i, d)" by (cases call) auto
  show ?case
  proof (cases "log_action a n i d w")
    case (Inl w')
    then have "action_log_queue w' = action_log_queue w"
      by (auto dest: log_action_Inl)
    with Cons Inl call show ?thesis by simp
  next
    case (Inr w')
    then have "length (action_log_queue w') \<le> 100"
      using Cons.prems by (auto dest!: log_action_queue_Inr simp: deque_append_length)
    with Cons.IH Inr call show ?thesis by simp
  qed
qed

text \<open>
  While no commit fails, the queue holds the entries of the newest rows of the log table:
  those from row \<open>l0\<close> on, and at most the last 100.
\<close>

lemma mirror_step:
  assumes l0: "l0 \<le> length (action_logs (db w))"
    and q: "action_log_queue w =
              map queue_entry_of
                (drop (max l0 (length (action_logs (db w)) - 100)) (action_logs (db w)))"
    and step: "log_action a n i d w = Inr w'"
  shows "action_log_queue w' =
           map queue_entry_of
             (drop (max l0 (length (action_logs (db w')) - 100)) (action_logs (db w')))"
proof -
  let ?logs = "action_logs (db w)"
  let ?k = "max l0 (length ?logs - 100)"
  from step obtain row where
    logs': "action_logs (db w') = ?logs @ [row]" and
    q': "action_log_queue w' = deque_append 100 (action_log_queue w) (queue_entry_of row)"
    by (auto dest!: log_action_queue_Inr)
  have k: "?k \<le> length ?logs" using l0 by auto
  have len: "length (action_log_queue w) = length ?logs - ?k"
    by (simp only: q length_map length_drop)
  have app: "action_log_queue w @ [queue_entry_of row] =
               map queue_entry_of (drop ?k (?logs @ [row]))"
    using k by (simp add: q)
  show ?thesis
  proof (cases "100 < length (action_log_queue w) + 1")
    case True
    then have "length ?logs - ?k \<ge> 100" using len by simp
    then have k': "max l0 (length (?logs @ [row]) - 100) = Suc ?k" using l0 by auto
    have "action_log_queue w' = tl (action_log_queue w @ [queue_entry_of row])"
      using q' True by (simp add: deque_append_def Let_def)
    also have "\<dots> = tl (map queue_entry_of (drop ?k (?logs @ [row])))"
      by (simp only: app)
    also have "\<dots> = map queue_entry_of (drop (Suc ?k) (?logs @ [row]))"
      by (simp only: map_tl [symmetric] tl_drop drop_Suc)
    finally show ?thesis by (simp only: logs' k')
  next
    case False
    then have "length ?logs - ?k < 100" using len by simp
    then have k': "max l0 (length (?logs @ [row]) - 100) = ?k" using l0 by auto
    have "action_log_queue w' = action_log_queue w @ [queue_entry_of row]"
      using q' False by (simp add: deque_append_def Let_def)
    also have "\<dots> = map queue_entry_of (drop ?k (?logs @ [row]))"
      by (simp only: app)
    finally show ?thesis by (simp only: logs' k')
  qed
qed

lemma log_actions_mirror:
  "commit_faults w = [] \<Longrightarrow> l0 \<le> length (action_logs (db w)) \<Longrightarrow>
   action_log_queue w =
     map queue_entry_of (drop (max l0 (length (action_logs (db w)) - 100)) (action_logs (db w))) \<Longrightarrow>
   action_log_queue (log_actions calls w) =
     map queue_entry_of
       (drop (max l0 (length (action_logs (db (log_actions calls w))) - 100))
          (action_logs (db (log_actions calls w))))
   \<and> length (action_logs (db (log_actions calls w))) = length (action_logs (db w)) + length calls"
proof (induction calls arbitrary: w)
  case Nil
  then show ?case by simp
next
  case (Cons call calls)
  obtain a n i d where call: "call = (a, n, i, d)" by (cases call) auto
  from Cons.prems(1) obtain w' where w': "log_action a n i d w = Inr w'"
    using log_action_total_no_faults by blast
  have f: "commit_faults w' = []"
    and len: "length (action_logs (db w')) = Suc (length (action_logs (db w)))"
    using w' Cons.prems(1) by (auto dest: log_action_queue_Inr)
  have l0: "l0 \<le> length (action_logs (db w'))" using len Cons.prems(2) by simp
  have q: "action_log_queue w' =
             map queue_entry_of
               (drop (max l0 (length (action_logs (db w')) - 100)) (action_logs (db w')))"
    by (rule mirror_step [OF Cons.prems(2) Cons.prems(3) w'])
  from Cons.IH [OF f l0 q] w' call len show ?case by simp
qed

text \<open>
  Claim C7. The queue never holds more than 100 entries, whatever sequence of
  \<open>log_action\<close> calls runs. A call that returns appends the entry of the row it wrote, and
  when the queue already had 100 entries it drops the oldest one to do so; a call whose
  commit raises leaves the queue alone. From an empty queue and with every commit going
  through, the queue holds the entries of the last 100 rows written, so after 101 calls
  the entry of the first call is the one that is gone.
\<close>

theorem action_log_queue_bounded_fifo:
  assumes "length (action_log_queue w) \<le> 100"
  shows "length (action_log_queue (log_actions calls w)) \<le> 100
    \<and> (case log_action a n i d w of
         Inl w' \<Rightarrow> action_log_queue w' = action_log_queue w
       | Inr w' \<Rightarrow>
           action_log_queue w' =
             (if length (action_log_queue w) < 100 then action_log_queue w
              else tl (action_log_queue w)) @ [queue_entry_of (last (action_logs (db w')))])
    \<and> (commit_faults w = [] \<and> action_log_queue w = [] \<longrightarrow>
         length (drop (length (action_logs (db w))) (action_logs (db (log_actions calls w))))
           = length calls
         \<and> action_log_queue (log_actions calls w) =
             map queue_entry_of
               (drop (length calls - 100)
                  (drop (length (action_logs (db w))) (action_logs (db (log_actions calls w)))))
         \<and> (length calls = 101 \<longrightarrow>
              action_log_queue (log_actions calls w) =
                map queue_entry_of
                  (tl (drop (length (action_logs (db w)))
                         (action_logs (db (log_actions calls w)))))))"
proof (intro conjI impI)
  show "length (action_log_queue (log_actions calls w)) \<le> 100"
    using assms by (rule log_actions_bounded)
next
  show "case log_action a n i d w of
         Inl w' \<Rightarrow> action_log_queue w' = action_log_queue w
       | Inr w' \<Rightarrow>
           action_log_queue w' =
             (if length (action_log_queue w) < 100 then action_log_queue w
              else tl (action_log_queue w)) @ [queue_entry_of (last (action_logs (db w')))]"
  proof (cases "log_action a n i d w")
    case (Inl w')
    then show ?thesis by (auto dest: log_action_Inl)
  next
    case (Inr w')
    then have "action_log_queue w' =
        deque_append 100 (action_log_queue w) (queue_entry_of (last (action_logs (db w'))))"
      by (auto dest!: log_action_queue_Inr)
    with Inr assms show ?thesis by (simp add: deque_append_fifo)
  qed
next
  assume h: "commit_faults w = [] \<and> action_log_queue w = []"
  let ?l0 = "length (action_logs (db w))"
  let ?rows = "action_logs (db (log_actions calls w))"
  have q0: "action_log_queue w =
      map queue_entry_of (drop (max ?l0 (?l0 - 100)) (action_logs (db w)))"
    using h by simp
  from log_actions_mirror [of w ?l0 calls, OF _ _ q0] h
  have q: "action_log_queue (log_actions calls w) =
             map queue_entry_of (drop (max ?l0 (length ?rows - 100)) ?rows)"
    and len: "length ?rows = ?l0 + length calls"
    by simp_all
  show n: "length (drop ?l0 ?rows) = length calls"
    using len by simp
  have k: "max ?l0 (length ?rows - 100) = (length calls - 100) + ?l0"
    using len by auto
  show all: "action_log_queue (log_actions calls w) =
      map queue_entry_of (drop (length calls - 100) (drop ?l0 ?rows))"
    by (simp only: q k drop_drop)
  assume "length calls = 101"
  then have "length calls - 100 = Suc 0" by simp
  then show "action_log_queue (log_actions calls w) = map queue_entry_of (tl (drop ?l0 ?rows))"
    using all by (simp add: drop_Suc tl_drop)
qed

theorem action_log_queue_bounded_fifo_witness:
  "length (action_log_queue fresh_world) \<le> 100
   \<and> commit_faults fresh_world = [] \<and> action_log_queue fresh_world = []
   \<and> length (replicate 101 (ADD, ascii ''Alice'', Some (1::int), None :: details option)) = 101
   \<and> length (action_log_queue
        (log_actions (replicate 101 (ADD, ascii ''Alice'', Some 1, None)) fresh_world)) \<le> 100
   \<and> action_log_queue (log_actions (replicate 101 (ADD, ascii ''Alice'', Some 1, None)) fresh_world)
       = map queue_entry_of
           (tl (drop (length (action_logs (db fresh_world)))
              (action_logs (db (log_actions (replicate 101 (ADD, ascii ''Alice'', Some 1, None))
                 fresh_world)))))"
proof -
  have h: "length (action_log_queue fresh_world) \<le> 100"
    by (simp add: fresh_world_def)
  have f: "commit_faults fresh_world = [] \<and> action_log_queue fresh_world = []"
    by (simp add: fresh_world_def)
  have n: "length (replicate 101 (ADD, ascii ''Alice'', Some (1::int), None :: details option)) = 101"
    by simp
  from h f n
    action_log_queue_bounded_fifo [OF h,
      of "replicate 101 (ADD, ascii ''Alice'', Some 1, None)" ADD "ascii ''Alice''" "Some 1" None]
  show ?thesis by blast
qed

section \<open>Clock-in\<close>

lemma find_None_filter: "find P xs = None \<Longrightarrow> filter P xs = []"
  by (induction xs) (auto split: if_splits)

lemma open_entry_None: "open_entry sid w = None \<Longrightarrow> open_entries sid w = []"
  by (simp add: open_entry_def open_entries_def find_None_filter)

lemma open_entries_new:
  "open_entries j (w\<lparr>db := new_time_entry sid now (db w), commit_faults := fs\<rparr>) =
     open_entries j w @
       (if j = sid
        then [\<lparr>te_id = next_id (map te_id (time_entries (db w))), te_student_id = sid,
               te_clock_in = now, te_clock_out = None\<rparr>]
        else [])"
  by (simp add: open_entries_def new_time_entry_def)

lemma open_entries_flash [simp]: "open_entries j (flash m w) = open_entries j w"
  by (simp add: open_entries_def flash_def)

lemma open_entries_faults [simp]: "open_entries j (w\<lparr>commit_faults := fs\<rparr>) = open_entries j w"
  by (simp add: open_entries_def)

lemma commit_new_entry_open:
  assumes inv: "\<forall>j. length (open_entries j w) \<le> 1"
    and none: "open_entry sid w = None"
  shows "commit (new_time_entry sid now (db w)) w = Inl w' \<Longrightarrow> length (open_entries j w') \<le> 1"
    and "commit (new_time_entry sid now (db w)) w = Inr w' \<Longrightarrow> length (open_entries j w') \<le> 1"
proof -
  assume "commit (new_time_entry sid now (db w)) w = Inl w'"
  then have "w' = w\<lparr>commit_faults := tl (commit_faults w)\<rparr>" by (rule commit_cases)
  then show "length (open_entries j w') \<le> 1" using inv by simp
next
  assume "commit (new_time_entry sid now (db w)) w = Inr w'"
  then have "w' = w\<lparr>db := new_time_entry sid now (db w), commit_faults := tl (commit_faults w)\<rparr>"
    by (rule commit_cases)
  then have "open_entries j w' =
      open_entries j w @
        (if j = sid
         then [\<lparr>te_id = next_id (map te_id (time_entries (db w))), te_student_id = sid,
                te_clock_in = now, te_clock_out = None\<rparr>]
         else [])"
    by (simp only: open_entries_new)
  then show "length (open_entries j w') \<le> 1"
    using inv open_entry_None [OF none] by (cases "j = sid") simp_all
qed

lemma clock_in_open_entries:
  assumes inv: "\<forall>j. length (open_entries j w) \<le> 1"
  shows "length (open_entries j (snd (clock_in sid w))) \<le> 1"
proof (cases "get_student sid w")
  case None
  then show ?thesis using inv by (simp add: clock_in_def)
next
  case (Some s)
  note student = this
  show ?thesis
  proof (cases "open_entry sid w")
    case (Some e)
    with student show ?thesis using inv by (simp add: clock_in_def)
  next
    case None
    with student show ?thesis
      using commit_new_entry_open [OF inv None]
      by (simp add: clock_in_def Let_def split: sum.splits)
  qed
qed

lemma student_clock_in_open_entries:
  assumes inv: "\<forall>j. length (open_entries j w) \<le> 1"
  shows "length (open_entries j (snd (student_clock_in ss w))) \<le> 1"
proof (cases "\<exists>sid. ss = Some sid \<and> sid \<noteq> 0
                 \<and> (\<exists>s. get_student sid w = Some s
                        \<and> \<not> (s_total_hours s \<noteq> 0 \<and> s_completed_hours s \<ge> s_total_hours s))
                 \<and> open_entry sid w = None")
  case True
  then obtain sid s where "ss = Some sid" "sid \<noteq> 0" "get_student sid w = Some s"
    "\<not> (s_total_hours s \<noteq> 0 \<and> s_completed_hours s \<ge> s_total_hours s)"
    and none: "open_entry sid w = None" by blast
  then show ?thesis
    using commit_new_entry_open [OF inv none]
    by (auto simp: student_clock_in_def Let_def split: sum.splits)
next
  case False
  then show ?thesis using inv
    by (auto simp: student_clock_in_def split: option.splits)
qed

text \<open>
  Claim C8. For a student with an open time entry, the administrator's clock-in answers
  "already clocked in" and the student's own clock-in is turned away (to the login page
  for the session value 0, else with the message that the hours are completed or that
  the student is already clocked in); neither changes the store. Both routes keep the
  number of open entries of every student at most one. A student whose hours are
  completed and who has no open entry is clocked in by the administrator's route and
  refused by the student's own.
\<close>

theorem clock_in_rejected_while_open:
  "(get_student sid w = Some s \<and> open_entry sid w = Some e \<longrightarrow>
      clock_in sid w = (AlreadyClockedInPage, w)
      \<and> student_clock_in (Some sid) w =
          (if sid = 0 then (RedirectStudentLogin, w)
           else if s_total_hours s \<noteq> 0 \<and> s_completed_hours s \<ge> s_total_hours s
                then (RedirectStudentDashboard, flash AlreadyCompleted w)
                else (RedirectStudentDashboard, flash AlreadyClockedIn w)))
   \<and> ((\<forall>j. length (open_entries j w) \<le> 1) \<longrightarrow>
        length (open_entries k (snd (clock_in sid w))) \<le> 1
        \<and> length (open_entries k (snd (student_clock_in ss w))) \<le> 1)
   \<and> (get_student sid w = Some s \<and> open_entry sid w = None \<and> sid \<noteq> 0
        \<and> s_total_hours s \<noteq> 0 \<and> s_completed_hours s \<ge> s_total_hours s
        \<and> commit_faults w = [] \<longrightarrow>
        clock_in sid w
          = (ClockedInPage (utcnow w), w\<lparr>db := new_time_entry sid (utcnow w) (db w)\<rparr>)
        \<and> student_clock_in (Some sid) w = (RedirectStudentDashboard, flash AlreadyCompleted w))"
proof (intro conjI impI)
  assume "get_student sid w = Some s \<and> open_entry sid w = Some e"
  then show "clock_in sid w = (AlreadyClockedInPage, w)"
    and "student_clock_in (Some sid) w =
          (if sid = 0 then (RedirectStudentLogin, w)
           else if s_total_hours s \<noteq> 0 \<and> s_completed_hours s \<ge> s_total_hours s
                then (RedirectStudentDashboard, flash AlreadyCompleted w)
                else (RedirectStudentDashboard, flash AlreadyClockedIn w))"
    by (auto simp: clock_in_def student_clock_in_def)
next
  assume inv: "\<forall>j. length (open_entries j w) \<le> 1"
  show "length (open_entries k (snd (clock_in sid w))) \<le> 1"
    using inv by (rule clock_in_open_entries)
  show "length (open_entries k (snd (student_clock_in ss w))) \<le> 1"
    using inv by (rule student_clock_in_open_entries)
next
  assume "get_student sid w = Some s \<and> open_entry sid w = None \<and> sid \<noteq> 0
        \<and> s_total_hours s \<noteq> 0 \<and> s_completed_hours s \<ge> s_total_hours s
        \<and> commit_faults w = []"
  then show "clock_in sid w
          = (ClockedInPage (utcnow w), w\<lparr>db := new_time_entry sid (utcnow w) (db w)\<rparr>)"
    and "student_clock_in (Some sid) w = (RedirectStudentDashboard, flash AlreadyCompleted w)"
    by (auto simp: clock_in_def student_clock_in_def commit_def Let_def)
qed

theorem clock_in_rejected_while_open_witness:
  "get_student 1 clocked_in_world = Some alice
   \<and> open_entry 1 clocked_in_world
       = Some \<lparr>te_id = 1, te_student_id = 1, te_clock_in = 5, te_clock_out = None\<rparr>
   \<and> (\<forall>j. length (open_entries j clocked_in_world) \<le> 1)
   \<and> clock_in 1 clocked_in_world = (AlreadyClockedInPage, clocked_in_world)
   \<and> student_clock_in (Some 1) clocked_in_world
       = (RedirectStudentDashboard, flash AlreadyClockedIn clocked_in_world)
   \<and> length (open_entries 1 (snd (clock_in 1 clocked_in_world))) \<le> 1
   \<and> length (open_entries 1 (snd (student_clock_in (Some 1) clocked_in_world))) \<le> 1
   \<and> get_student 1 graduate_world = Some (alice\<lparr>s_completed_hours := 10\<rparr>)
   \<and> open_entry 1 graduate_world = None \<and> commit_faults graduate_world = []
   \<and> clock_in 1 graduate_world
       = (ClockedInPage (utcnow graduate_world),
          graduate_world\<lparr>db := new_time_entry 1 (utcnow graduate_world) (db graduate_world)\<rparr>)
   \<and> student_clock_in (Some 1) graduate_world
       = (RedirectStudentDashboard, flash AlreadyCompleted graduate_world)"
proof -
  have g: "get_student 1 clocked_in_world = Some alice"
    by code_simp
  have o: "open_entry 1 clocked_in_world
       = Some \<lparr>te_id = 1, te_student_id = 1, te_clock_in = 5, te_clock_out = None\<rparr>"
    by code_simp
  have inv: "\<forall>j. length (open_entries j clocked_in_world) \<le> 1"
    by (simp add: open_entries_def clocked_in_world_def fresh_world_def)
  have a: "s_total_hours alice \<noteq> 0" "\<not> s_completed_hours alice \<ge> s_total_hours alice"
    by (simp_all add: alice_def)
  have g': "get_student 1 graduate_world = Some (alice\<lparr>s_completed_hours := 10\<rparr>)"
    by code_simp
  have o': "open_entry 1 graduate_world = None" "commit_faults graduate_world = []"
    by code_simp+
  have a': "s_total_hours (alice\<lparr>s_completed_hours := 10\<rparr>) \<noteq> 0"
    "s_completed_hours (alice\<lparr>s_completed_hours := 10\<rparr>)
       \<ge> s_total_hours (alice\<lparr>s_completed_hours := 10\<rparr>)"
    by (simp_all add: alice_def)
  from g o inv a
    clock_in_rejected_while_open [where sid = 1 and w = clocked_in_world and s = alice
      and e = "\<lparr>te_id = 1, te_student_id = 1, te_clock_in = 5, te_clock_out = None\<rparr>"
      and k = 1 and ss = "Some 1"]
  have 1: "clock_in 1 clocked_in_world = (AlreadyClockedInPage, clocked_in_world)
     \<and> student_clock_in (Some 1) clocked_in_world
         = (RedirectStudentDashboard, flash AlreadyClockedIn clocked_in_world)
     \<and> length (open_entries 1 (snd (clock_in 1 clocked_in_world))) \<le> 1
     \<and> length (open_entries 1 (snd (student_clock_in (Some 1) clocked_in_world))) \<le> 1"
    by simp
  from g' o' a'
    clock_in_rejected_while_open [where sid = 1 and w = graduate_world
      and s = "alice\<lparr>s_completed_hours := 10\<rparr>"]
  have 2: "clock_in 1 graduate_world
       = (ClockedInPage (utcnow graduate_world),
          graduate_world\<lparr>db := new_time_entry 1 (utcnow graduate_world) (db graduate_world)\<rparr>)
     \<and> student_clock_in (Some 1) graduate_world
       = (RedirectStudentDashboard, flash AlreadyCompleted graduate_world)"
    by simp
  from g o inv g' o' 1 2 show ?thesis by blast
qed

section \<open>Prefix search with an empty prefix\<close>

text \<open>
  Claim C10. With the empty prefix the search returns the whole list as it is (Python's
  \<open>"".lower()\<close> is \<open>""\<close>).
\<close>

theorem prefix_search_empty_prefix:
  "lower [] = [] \<Longrightarrow> binary_prefix_search_students lower xs [] = xs"
  by (simp add: binary_prefix_search_students_def)

theorem prefix_search_empty_prefix_witness:
  "ascii_lower [] = []
   \<and> binary_prefix_search_students ascii_lower [ann2, alice, ann1] [] = [ann2, alice, ann1]"
proof -
  have h: "ascii_lower [] = []"
    by (simp add: ascii_lower_def)
  from h prefix_search_empty_prefix [of ascii_lower "[ann2, alice, ann1]"] show ?thesis by blast
qed

section \<open>Undo and redo when the student is missing\<close>

text \<open>
  The \<open>ADD\<close> branch of \<open>undo\<close> answers a missing student with a failure message and puts
  the entry back; the \<open>EDIT\<close> branch of \<open>undo\<close> and the \<open>DELETE\<close> and \<open>EDIT\<close> branches of
  \<open>redo\<close> have no \<open>else\<close>: the entry is dropped and nothing is said.
\<close>

lemma undo_add_missing_student:
  "undo_stack w = us @ [e] \<Longrightarrow> e_action_type e = ADD \<Longrightarrow>
   get_student (e_student_id e) w = None \<Longrightarrow> undo w = flash UndoFailedNotFound w"
  by (simp add: undo_def undo_try_def get_student_def flash_def Let_def)

lemma undo_edit_missing_student:
  "undo_stack w = us @ [e] \<Longrightarrow> e_action_type e = EDIT \<Longrightarrow>
   get_student (e_student_id e) w = None \<Longrightarrow> undo w = w\<lparr>undo_stack := us\<rparr>"
  by (simp add: undo_def undo_try_def get_student_def Let_def)

lemma redo_missing_student:
  "redo_stack w = rs @ [e] \<Longrightarrow> e_action_type e = DELETE \<or> e_action_type e = EDIT \<Longrightarrow>
   get_student (e_student_id e) w = None \<Longrightarrow> redo w = w\<lparr>redo_stack := rs\<rparr>"
  by (auto simp: redo_def redo_try_def get_student_def Let_def)

text \<open>When the first commit of \<open>undo\<close> raises, the entry is put back and the store is as
  it was.\<close>

lemma undo_first_commit_fails:
  assumes "undo_stack w = us @ [e]" and "commit_faults w = True # fs"
    and "e_action_type e = DELETE \<or>
         (e_action_type e = EDIT \<or> e_action_type e = ADD) \<and> get_student (e_student_id e) w \<noteq> None"
  shows "undo w = (flash UndoFailed w)\<lparr>commit_faults := fs\<rparr>"
  using assms
  by (auto simp: undo_def undo_try_def get_student_def commit_def flash_def Let_def)

text \<open>
  When the commit of the store change goes through and the commit of the log row raises,
  \<open>undo\<close> reports a failure and puts the entry back, but the store change stays.
\<close>

lemma undo_add_log_commit_fails:
  assumes "undo_stack w = us @ [e]" and "e_action_type e = ADD"
    and "get_student (e_student_id e) w = Some s" and "commit_faults w = False # True # fs"
  shows "students (db (undo w)) = filter (\<lambda>x. s_id x \<noteq> e_student_id e) (students (db w))"
    and "undo_stack (undo w) = undo_stack w" and "redo_stack (undo w) = redo_stack w"
    and "flashes (undo w) = flashes w @ [UndoDeleted (s_name s), UndoFailed]"
  using assms
  by (simp_all add: undo_def undo_try_def commit_def log_action_def flash_def
      remove_student_def get_student_def Let_def)

text \<open>
  Claim C1, at a state where it fails. The entry on top of the undo stack is the \<open>EDIT\<close> of
  student 7, who is not in the store. \<open>undo\<close> pops the entry and does nothing more: the
  undo stack is left empty instead of as it was, and no message is flashed.
\<close>

theorem undo_edit_of_missing_student_drops_entry:
  "undo_stack orphan_edit_world \<noteq> []
   \<and> get_student 7 orphan_edit_world = None
   \<and> undo orphan_edit_world = orphan_edit_world\<lparr>undo_stack := []\<rparr>
   \<and> undo_stack (undo orphan_edit_world) \<noteq> undo_stack orphan_edit_world
   \<and> flashes (undo orphan_edit_world) = flashes orphan_edit_world"
  by code_simp

text \<open>
  Such a state is reached by the handlers themselves once a commit fails: add, edit and
  delete a student, undo the deletion, then redo it with the commit of the log row
  failing. The student is deleted, \<open>redo\<close> reports a failure and keeps its entry, and the
  \<open>EDIT\<close> entry is on top of the undo stack; the next \<open>undo\<close> drops it silently.
\<close>

lemma orphan_edit_reachable:
  "let w0 = fresh_world\<lparr>commit_faults := replicate 9 False @ [True]\<rparr>;
       w1 = snd (add_student (ascii ''Alice'') None 10 0 None w0);
       w2 = snd (edit_student 1 (ascii ''Alice'') None 10 5 None w1);
       w3 = snd (delete_student 1 w2);
       w4 = undo w3;
       w5 = redo w4
   in students (db w4) = [alice\<lparr>s_completed_hours := 5\<rparr>]
      \<and> students (db w5) = []
      \<and> last (flashes w5) = RedoFailed
      \<and> redo_stack w5 = redo_stack w4
      \<and> map e_action_type (undo_stack w5) = [ADD, EDIT]
      \<and> map e_action_type (undo_stack (undo w5)) = [ADD]
      \<and> flashes (undo w5) = flashes w5"
  by code_simp

section \<open>Undo and redo of an edit\<close>

text \<open>The \<open>EDIT\<close> branch of \<open>undo\<close> never touches the redo stack.\<close>

lemma undo_edit_keeps_redo_stack:
  assumes "undo_stack w = us @ [e]" and "e_action_type e = EDIT"
  shows "redo_stack (undo w) = redo_stack w"
proof (cases "get_student (e_student_id e) w")
  case None
  with assms show ?thesis by (simp add: undo_edit_missing_student)
next
  case (Some s)
  then have g: "get_student (e_student_id e) (w\<lparr>undo_stack := us\<rparr>) = Some s"
    by (simp add: get_student_def)
  show ?thesis
  proof (cases "commit (update_student (e_student_id e) (e_data e) (db w)) (w\<lparr>undo_stack := us\<rparr>)")
    case (Inl w')
    with assms g show ?thesis
      by (auto simp: undo_def undo_try_def Let_def flash_def dest!: commit_cases)
  next
    case (Inr w')
    note c = this
    show ?thesis
    proof (cases "log_action UNDO (d_name (e_data e)) (Some (e_student_id e))
                    (Some (OriginalAction EDIT)) (flash (UndoRestored (d_name (e_data e))) w')")
      case (Inl w'')
      with assms g c show ?thesis
        by (auto simp: undo_def undo_try_def Let_def flash_def dest!: commit_cases log_action_Inl)
    next
      case (Inr w'')
      with assms g c show ?thesis
        by (auto simp: undo_def undo_try_def Let_def flash_def dest!: commit_cases log_action_Inr)
    qed
  qed
qed

text \<open>
  No operation puts an \<open>EDIT\<close> entry on the redo stack, so the \<open>EDIT\<close> branch of \<open>redo\<close> is
  never taken in a run that starts with an empty redo stack.
\<close>

lemma undo_try_redo_stack:
  "undo_try e w = Inl w' \<Longrightarrow> redo_stack w' = redo_stack w"
  "undo_try e w = Inr w' \<Longrightarrow>
     redo_stack w' = redo_stack w \<or> redo_stack w' = redo_stack w @ [e] \<and> e_action_type e \<noteq> EDIT"
  by (auto simp: undo_try_def Let_def flash_def split: if_splits option.splits sum.splits
      dest!: commit_cases log_action_Inr log_action_Inl)

lemma redo_try_redo_stack:
  "redo_try e w = Inl w' \<Longrightarrow> redo_stack w' = redo_stack w"
  "redo_try e w = Inr w' \<Longrightarrow> redo_stack w' = redo_stack w"
  by (auto simp: redo_try_def Let_def flash_def split: if_splits option.splits sum.splits
      dest!: commit_cases log_action_Inr log_action_Inl)

lemma undo_no_edit_on_redo_stack:
  assumes "\<forall>e \<in> set (redo_stack w). e_action_type e \<noteq> EDIT"
  shows "\<forall>e \<in> set (redo_stack (undo w)). e_action_type e \<noteq> EDIT"
proof (cases "undo_stack w = []")
  case True
  with assms show ?thesis by (simp add: undo_def flash_def)
next
  case False
  let ?e = "last (undo_stack w)"
  let ?w1 = "w\<lparr>undo_stack := butlast (undo_stack w)\<rparr>"
  show ?thesis
  proof (cases "undo_try ?e ?w1")
    case (Inl w')
    then have "redo_stack w' = redo_stack w" by (auto dest: undo_try_redo_stack(1))
    with assms False Inl show ?thesis by (simp add: undo_def Let_def flash_def)
  next
    case (Inr w')
    then have "redo_stack w' = redo_stack w
        \<or> redo_stack w' = redo_stack w @ [?e] \<and> e_action_type ?e \<noteq> EDIT"
      by (auto dest: undo_try_redo_stack(2))
    with assms False Inr show ?thesis by (auto simp: undo_def Let_def)
  qed
qed

lemma redo_no_edit_on_redo_stack:
  assumes "\<forall>e \<in> set (redo_stack w). e_action_type e \<noteq> EDIT"
  shows "\<forall>e \<in> set (redo_stack (redo w)). e_action_type e \<noteq> EDIT"
proof (cases "redo_stack w = []")
  case True
  with assms show ?thesis by (simp add: redo_def flash_def)
next
  case False
  let ?e = "last (redo_stack w)"
  let ?w1 = "w\<lparr>redo_stack := butlast (redo_stack w)\<rparr>"
  have sub: "set (butlast (redo_stack w)) \<subseteq> set (redo_stack w)"
    by (auto dest: in_set_butlastD)
  show ?thesis
  proof (cases "redo_try ?e ?w1")
    case (Inl w')
    then have "redo_stack w' = butlast (redo_stack w)" by (auto dest: redo_try_redo_stack(1))
    with assms False Inl show ?thesis by (simp add: redo_def Let_def flash_def)
  next
    case (Inr w')
    then have "redo_stack w' = butlast (redo_stack w)" by (auto dest: redo_try_redo_stack(2))
    with assms False Inr sub show ?thesis by (auto simp: redo_def Let_def)
  qed
qed

text \<open>
  Claim C2, at a run where it fails. Alice has 0 completed hours; an edit sets them to 5
  and \<open>undo\<close> restores 0. The redo stack is empty after that \<open>undo\<close>, so \<open>redo\<close> only
  reports that there is nothing to redo, and the hours stay 0 instead of going back to 5.
\<close>

theorem redo_after_undo_of_edit_does_nothing:
  "let w1 = snd (edit_student 1 (ascii ''Alice'') None 10 5 None alice_world);
       w2 = undo w1;
       w3 = redo w2
   in students (db w1) = [alice\<lparr>s_completed_hours := 5\<rparr>]
      \<and> students (db w2) = [alice]
      \<and> last (flashes w2) = UndoRestored (ascii ''Alice'')
      \<and> redo_stack w2 = []
      \<and> w3 = flash NothingToRedo w2
      \<and> students (db w3) = [alice]"
  by code_simp

section \<open>Undo, redo, undo of an addition or a deletion\<close>

text \<open>What \<open>undo\<close> and \<open>redo\<close> do to the store and the stacks when no commit fails.\<close>

lemma undo_add_effect:
  assumes "undo_stack w = us @ [e]" and "e_action_type e = ADD"
    and "get_student (e_student_id e) w = Some s" and "commit_faults w = []"
  shows "students (db (undo w)) = filter (\<lambda>x. s_id x \<noteq> e_student_id e) (students (db w))"
    and "time_entries (db (undo w))
           = filter (\<lambda>t. te_student_id t \<noteq> e_student_id e) (time_entries (db w))"
    and "undo_stack (undo w) = us" and "redo_stack (undo w) = redo_stack w @ [e]"
    and "commit_faults (undo w) = []"
  using assms
  by (simp_all add: undo_def undo_try_def commit_def log_action_def flash_def
      remove_student_def get_student_def Let_def)

lemma undo_delete_effect:
  assumes "undo_stack w = us @ [e]" and "e_action_type e = DELETE"
    and "get_student (e_student_id e) w = None" and "commit_faults w = []"
  shows "students (db (undo w)) = students (create_student (e_student_id e) (e_data e) (db w))"
    and "time_entries (db (undo w)) = time_entries (db w)"
    and "undo_stack (undo w) = us" and "redo_stack (undo w) = redo_stack w @ [e]"
    and "commit_faults (undo w) = []"
  using assms
  by (simp_all add: undo_def undo_try_def commit_def log_action_def flash_def
      create_student_def get_student_def Let_def)

lemma redo_add_effect:
  assumes "redo_stack w = rs @ [e]" and "e_action_type e = ADD"
    and "get_student (e_student_id e) w = None" and "commit_faults w = []"
  shows "students (db (redo w)) = students (create_student (e_student_id e) (e_data e) (db w))"
    and "time_entries (db (redo w)) = time_entries (db w)"
    and "undo_stack (redo w) = undo_stack w @ [e]" and "redo_stack (redo w) = rs"
    and "commit_faults (redo w) = []"
  using assms
  by (simp_all add: redo_def redo_try_def commit_def log_action_def flash_def
      create_student_def get_student_def Let_def)

lemma redo_delete_effect:
  assumes "redo_stack w = rs @ [e]" and "e_action_type e = DELETE"
    and "get_student (e_student_id e) w = Some s" and "commit_faults w = []"
  shows "students (db (redo w)) = filter (\<lambda>x. s_id x \<noteq> e_student_id e) (students (db w))"
    and "time_entries (db (redo w))
           = filter (\<lambda>t. te_student_id t \<noteq> e_student_id e) (time_entries (db w))"
    and "undo_stack (redo w) = undo_stack w @ [e]" and "redo_stack (redo w) = rs"
    and "commit_faults (redo w) = []"
  using assms
  by (simp_all add: redo_def redo_try_def commit_def log_action_def flash_def
      remove_student_def get_student_def Let_def)

lemma find_filter_other: "find (\<lambda>x. f x = i) (filter (\<lambda>x. f x \<noteq> i) xs) = None"
  by (simp add: find_None_iff)

lemma find_snoc:
  "find P (xs @ [x]) = (case find P xs of None \<Rightarrow> if P x then Some x else None | Some y \<Rightarrow> Some y)"
  by (induction xs) auto

lemma filter_absent: "find (\<lambda>x. f x = i) xs = None \<Longrightarrow> filter (\<lambda>x. f x \<noteq> i) xs = xs"
  by (induction xs) (auto split: if_splits)

text \<open>
  With an \<open>ADD\<close> entry on top of the undo stack whose student is in the store, or a
  \<open>DELETE\<close> entry whose student is not (the states right after an addition or a
  deletion), and no commit failing, \<open>undo\<close>, \<open>redo\<close>, \<open>undo\<close> leaves the students and the
  time entries as the single \<open>undo\<close> does.
\<close>

lemma undo_redo_undo_add:
  assumes top: "undo_stack w = us @ [e]" and add: "e_action_type e = ADD"
    and present: "get_student (e_student_id e) w = Some s" and ok: "commit_faults w = []"
  shows "students (db (undo (redo (undo w)))) = students (db (undo w))
       \<and> time_entries (db (undo (redo (undo w)))) = time_entries (db (undo w))"
proof -
  let ?i = "e_student_id e"
  note u = undo_add_effect [OF top add present ok]
  have gone: "get_student ?i (undo w) = None"
    by (simp add: get_student_def u(1) find_filter_other)
  note r = redo_add_effect [OF u(4) add gone u(5)]
  have "\<exists>s'. get_student ?i (redo (undo w)) = Some s'"
    using gone by (auto simp: get_student_def r(1) create_student_def find_snoc split: option.splits)
  then obtain s' where found: "get_student ?i (redo (undo w)) = Some s'" ..
  note u' = undo_add_effect [OF r(3) add found r(5)]
  have "students (db (undo (redo (undo w))))
      = filter (\<lambda>x. s_id x \<noteq> ?i) (students (db (undo w)))"
    by (simp add: u'(1) r(1) create_student_def)
  also have "\<dots> = students (db (undo w))"
    by (simp add: u(1))
  finally have 1: "students (db (undo (redo (undo w)))) = students (db (undo w))" .
  have "time_entries (db (undo (redo (undo w))))
      = filter (\<lambda>t. te_student_id t \<noteq> ?i) (time_entries (db (undo w)))"
    by (simp add: u'(2) r(2))
  also have "\<dots> = time_entries (db (undo w))"
    by (simp add: u(2))
  finally show ?thesis using 1 by simp
qed

lemma undo_redo_undo_delete:
  assumes top: "undo_stack w = us @ [e]" and del: "e_action_type e = DELETE"
    and absent: "get_student (e_student_id e) w = None"
    and no_entries: "\<forall>t \<in> set (time_entries (db w)). te_student_id t \<noteq> e_student_id e"
    and ok: "commit_faults w = []"
  shows "students (db (undo (redo (undo w)))) = students (db (undo w))
       \<and> time_entries (db (undo (redo (undo w)))) = time_entries (db (undo w))"
proof -
  let ?i = "e_student_id e"
  note u = undo_delete_effect [OF top del absent ok]
  have "\<exists>s'. get_student ?i (undo w) = Some s'"
    using absent by (auto simp: get_student_def u(1) create_student_def find_snoc split: option.splits)
  then obtain s' where found: "get_student ?i (undo w) = Some s'" ..
  note r = redo_delete_effect [OF u(4) del found u(5)]
  have sr: "students (db (redo (undo w))) = students (db w)"
    using absent by (simp add: r(1) u(1) create_student_def get_student_def filter_absent)
  have tr: "time_entries (db (redo (undo w))) = time_entries (db w)"
    using no_entries by (simp add: r(2) u(2) filter_id_conv)
  have gone: "get_student ?i (redo (undo w)) = None"
    using absent by (simp add: get_student_def sr)
  note u' = undo_delete_effect [OF r(3) del gone r(5)]
  show ?thesis
    by (simp add: u'(1) u'(2) u(1) u(2) sr tr create_student_def)
qed

text \<open>
  Claim C3, at a run where it fails. Alice is added and then edited. \<open>undo\<close> takes the
  edit back and leaves Alice in the store with her first values. The \<open>redo\<close> that follows
  finds nothing to redo, and the second \<open>undo\<close> takes the next entry, the addition:
  Alice is deleted, and the store differs from the one after the single \<open>undo\<close>.
\<close>

theorem undo_redo_undo_after_edit_differs:
  "let w1 = snd (add_student (ascii ''Alice'') None 10 0 None fresh_world);
       w2 = snd (edit_student 1 (ascii ''Alice'') None 10 5 None w1)
   in students (db w2) = [alice\<lparr>s_completed_hours := 5\<rparr>]
      \<and> students (db (undo w2)) = [alice]
      \<and> students (db (undo (redo (undo w2)))) = []
      \<and> students (db (undo (redo (undo w2)))) \<noteq> students (db (undo w2))"
  by code_simp

section \<open>What the merge sort does with ties\<close>

lemma set_merge: "set (merge left right key reverse) = set left \<union> set right"
  by (induction left right key reverse rule: merge.induct) auto

lemma length_merge: "length (merge left right key reverse) = length left + length right"
  by (induction left right key reverse rule: merge.induct) auto

lemma in_order_Cons:
  "in_order reverse (k # ks) \<longleftrightarrow>
     (\<forall>k' \<in> set ks. if reverse then k' \<le> k else k \<le> k') \<and> in_order reverse ks"
  by (auto simp: in_order_def sorted_append)

lemma in_order_Nil [simp]: "in_order reverse []"
  by (simp add: in_order_def)

lemma in_order_merge:
  "in_order reverse (map key left) \<Longrightarrow> in_order reverse (map key right) \<Longrightarrow>
   in_order reverse (map key (merge left right key reverse))"
proof (induction left right key reverse rule: merge.induct)
  case (1 l left r right key reverse)
  then show ?case
    by (cases reverse) (auto simp: in_order_Cons set_merge)
qed simp_all

text \<open>Among equal keys, everything of the right half comes before everything of the left.\<close>

lemma filter_merge:
  "in_order reverse (map key right) \<Longrightarrow>
   filter (\<lambda>x. key x = k) (merge left right key reverse)
     = filter (\<lambda>x. key x = k) right @ filter (\<lambda>x. key x = k) left"
proof (induction left right key reverse rule: merge.induct)
  case (1 l left r right key reverse)
  let ?P = "\<lambda>x. key x = k"
  show ?case
  proof (cases "if reverse then key l > key r else key l < key r")
    case True
    then have m: "merge (l # left) (r # right) key reverse = l # merge left (r # right) key reverse"
      by simp
    have ih: "filter ?P (merge left (r # right) key reverse)
                = filter ?P (r # right) @ filter ?P left"
      using True "1.IH"(1) "1.IH"(3) "1.prems" by (cases reverse) simp_all
    show ?thesis
    proof (cases "key l = k")
      case False
      then show ?thesis unfolding m using ih by simp
    next
      case same: True
      have "\<forall>x \<in> set (r # right). key x \<noteq> k"
        using True same "1.prems" by (cases reverse) (auto simp: in_order_Cons)
      then have "filter ?P (r # right) = []"
        by (simp only: filter_empty_conv)
      with same ih show ?thesis unfolding m by simp
    qed
  next
    case False
    then have m: "merge (l # left) (r # right) key reverse = r # merge (l # left) right key reverse"
      by auto
    have "in_order reverse (map key right)"
      using "1.prems" by (simp add: in_order_Cons)
    then have ih: "filter ?P (merge (l # left) right key reverse)
                = filter ?P right @ filter ?P (l # left)"
      using False "1.IH"(2) "1.IH"(4) by (cases reverse) simp_all
    show ?thesis unfolding m using ih by simp
  qed
qed simp_all

lemma merge_sort_short: "length xs \<le> 1 \<Longrightarrow> merge_sort xs key reverse = xs"
  by (simp add: merge_sort.simps)

lemma merge_sort_long:
  "\<not> length xs \<le> 1 \<Longrightarrow>
   merge_sort xs key reverse =
     merge (merge_sort (take (length xs div 2) xs) key reverse)
           (merge_sort (drop (length xs div 2) xs) key reverse) key reverse"
  by (subst merge_sort.simps) simp

lemma in_order_short: "length ks \<le> 1 \<Longrightarrow> in_order reverse ks"
  by (cases ks) (auto simp: in_order_def)

lemma merge_sort_in_order: "in_order reverse (map key (merge_sort xs key reverse))"
proof (induction xs key reverse rule: merge_sort.induct)
  case (1 xs key reverse)
  show ?case
  proof (cases "length xs \<le> 1")
    case True
    then show ?thesis by (simp add: merge_sort_short in_order_short)
  next
    case False
    show ?thesis
      unfolding merge_sort_long [OF False]
      by (rule in_order_merge) (rule "1.IH" [OF False])+
  qed
qed

lemma set_merge_sort: "set (merge_sort xs key reverse) = set xs"
proof (induction xs key reverse rule: merge_sort.induct)
  case (1 xs key reverse)
  show ?case
  proof (cases "length xs \<le> 1")
    case True
    then show ?thesis by (simp add: merge_sort_short)
  next
    case False
    have "set (merge_sort xs key reverse)
        = set (take (length xs div 2) xs) \<union> set (drop (length xs div 2) xs)"
      by (simp only: merge_sort_long [OF False] set_merge "1.IH" [OF False])
    also have "\<dots> = set (take (length xs div 2) xs @ drop (length xs div 2) xs)"
      by (simp only: set_append)
    finally show ?thesis by simp
  qed
qed

lemma length_merge_sort: "length (merge_sort xs key reverse) = length xs"
proof (induction xs key reverse rule: merge_sort.induct)
  case (1 xs key reverse)
  show ?case
  proof (cases "length xs \<le> 1")
    case True
    then show ?thesis by (simp add: merge_sort_short)
  next
    case False
    have "length (merge_sort xs key reverse)
        = length (take (length xs div 2) xs) + length (drop (length xs div 2) xs)"
      by (simp only: merge_sort_long [OF False] length_merge "1.IH" [OF False])
    then show ?thesis by simp
  qed
qed

text \<open>
  The sort orders by key in the direction asked for, and the elements that share a key
  come out in the reverse of their input order.
\<close>

lemma merge_sort_reverses_ties:
  "filter (\<lambda>x. key x = k) (merge_sort xs key reverse) = rev (filter (\<lambda>x. key x = k) xs)"
proof (induction xs key reverse rule: merge_sort.induct)
  case (1 xs key reverse)
  show ?case
  proof (cases "length xs \<le> 1")
    case True
    then have "xs = [] \<or> (\<exists>x. xs = [x])" by (cases xs) auto
    then show ?thesis using True by (auto simp: merge_sort_short)
  next
    case False
    let ?m = "length xs div 2"
    let ?l = "merge_sort (take ?m xs) key reverse"
    let ?r = "merge_sort (drop ?m xs) key reverse"
    let ?P = "\<lambda>x. key x = k"
    have "filter ?P (merge_sort xs key reverse) = filter ?P (merge ?l ?r key reverse)"
      by (simp only: merge_sort_long [OF False])
    also have "\<dots> = filter ?P ?r @ filter ?P ?l"
      by (rule filter_merge) (rule merge_sort_in_order)
    also have "\<dots> = rev (filter ?P (drop ?m xs)) @ rev (filter ?P (take ?m xs))"
      by (simp only: "1.IH" [OF False])
    also have "\<dots> = rev (filter ?P (take ?m xs @ drop ?m xs))"
      by (simp only: filter_append rev_append)
    finally show ?thesis by simp
  qed
qed

lemma dashboard_sort_reverses_ties:
  "filter (\<lambda>x. lower (s_name x) = n) (dashboard_sort lower SortName reverse xs)
     = rev (filter (\<lambda>x. lower (s_name x) = n) xs)"
  "filter (\<lambda>x. lower (program_or_empty x) = n) (dashboard_sort lower SortProgram reverse xs)
     = rev (filter (\<lambda>x. lower (program_or_empty x) = n) xs)"
  "filter (\<lambda>x. s_total_hours x = h) (dashboard_sort lower SortTotalHours reverse xs)
     = rev (filter (\<lambda>x. s_total_hours x = h) xs)"
  "filter (\<lambda>x. s_completed_hours x = h) (dashboard_sort lower SortCompletedHours reverse xs)
     = rev (filter (\<lambda>x. s_completed_hours x = h) xs)"
  "filter (\<lambda>x. remaining_hours x = h) (dashboard_sort lower SortRemainingHours reverse xs)
     = rev (filter (\<lambda>x. remaining_hours x = h) xs)"
  "filter (\<lambda>x. status_key x = h) (dashboard_sort lower SortStatus reverse xs)
     = rev (filter (\<lambda>x. status_key x = h) xs)"
  by (simp_all add: dashboard_sort_def merge_sort_reverses_ties)

text \<open>
  Claim C5, at an input where it fails. The two students are equal on each of the six
  sort keys. Whatever the key and the direction, the sort returns them in the opposite
  order: on a tie \<open>merge\<close> takes the element of the right half first.
\<close>

theorem merge_sort_swaps_equal_keys:
  "dashboard_sort ascii_lower SortName False [ann1, ann2] = [ann2, ann1]
   \<and> dashboard_sort ascii_lower SortName True [ann1, ann2] = [ann2, ann1]
   \<and> dashboard_sort ascii_lower SortProgram False [ann1, ann2] = [ann2, ann1]
   \<and> dashboard_sort ascii_lower SortProgram True [ann1, ann2] = [ann2, ann1]
   \<and> dashboard_sort ascii_lower SortTotalHours False [ann1, ann2] = [ann2, ann1]
   \<and> dashboard_sort ascii_lower SortTotalHours True [ann1, ann2] = [ann2, ann1]
   \<and> dashboard_sort ascii_lower SortCompletedHours False [ann1, ann2] = [ann2, ann1]
   \<and> dashboard_sort ascii_lower SortCompletedHours True [ann1, ann2] = [ann2, ann1]
   \<and> dashboard_sort ascii_lower SortRemainingHours False [ann1, ann2] = [ann2, ann1]
   \<and> dashboard_sort ascii_lower SortRemainingHours True [ann1, ann2] = [ann2, ann1]
   \<and> dashboard_sort ascii_lower SortStatus False [ann1, ann2] = [ann2, ann1]
   \<and> dashboard_sort ascii_lower SortStatus True [ann1, ann2] = [ann2, ann1]"
  by code_simp

section \<open>The prefix search below the high key\<close>

lemma le_append_self: "(xs :: ('a::linorder) list) \<le> xs @ ys"
  by (induction xs) simp_all

lemma append_le_append: "(xs :: ('a::linorder) list) @ ys \<le> xs @ zs \<longleftrightarrow> ys \<le> zs"
  by (induction xs) simp_all

lemma startswith_append: "startswith s prefix \<longleftrightarrow> (\<exists>suffix. s = prefix @ suffix)"
proof
  assume "startswith s prefix"
  then have "s = prefix @ drop (length prefix) s"
    by (metis append_take_drop_id startswith_def)
  then show "\<exists>suffix. s = prefix @ suffix" ..
next
  assume "\<exists>suffix. s = prefix @ suffix"
  then show "startswith s prefix" by (auto simp: startswith_def)
qed

lemma startswith_ge: "startswith s prefix \<Longrightarrow> prefix \<le> s"
  by (auto simp: startswith_append le_append_self)

text \<open>A name that starts with the prefix and has no code point from U+FFFF on is not
  above the high key.\<close>

lemma startswith_le_high_key:
  assumes "startswith s prefix" and "\<forall>c \<in> set s. c < 0xFFFF"
  shows "s \<le> prefix @ [0xFFFF]"
proof -
  from assms(1) obtain suffix where s: "s = prefix @ suffix"
    by (auto simp: startswith_append)
  have "suffix \<le> [0xFFFF]"
  proof (cases suffix)
    case Nil
    then show ?thesis by simp
  next
    case (Cons c cs)
    with assms(2) s have "c < 0xFFFF" by simp
    with Cons show ?thesis by simp
  qed
  then show ?thesis by (simp only: s append_le_append)
qed

text \<open>
  Each loop returns the index that splits a sorted list: \<open>left_loop\<close> the first index
  whose name is not below the prefix, \<open>right_loop\<close> the first index whose name is above
  the high key (the length of the list when there is none).
\<close>

lemma left_loop_split:
  assumes "sorted names" and "0 \<le> lo" and "hi < int (length names)" and "lo \<le> hi + 1"
    and "left = hi + 1"
    and "\<forall>i < nat lo. names ! i < prefix"
    and "\<forall>i. nat left \<le> i \<and> i < length names \<longrightarrow> prefix \<le> names ! i"
  shows "\<exists>l. left_loop names prefix lo hi left = int l \<and> l \<le> length names
           \<and> (\<forall>i < l. names ! i < prefix)
           \<and> (\<forall>i. l \<le> i \<and> i < length names \<longrightarrow> prefix \<le> names ! i)"
  using assms
proof (induction names prefix lo hi left rule: left_loop.induct)
  case (1 names prefix lo hi left)
  let ?mid = "(lo + hi) div 2"
  show ?case
  proof (cases "lo \<le> hi")
    case False
    then have "left_loop names prefix lo hi left = left"
      by (simp add: left_loop.simps)
    moreover have "left = lo" "0 \<le> left" "nat left \<le> length names"
      using False "1.prems" by auto
    ultimately show ?thesis
      using "1.prems" by (intro exI [of _ "nat left"]) auto
  next
    case True
    then have mid: "lo \<le> ?mid" "?mid \<le> hi" "0 \<le> ?mid" "nat ?mid < length names"
      using "1.prems" by auto
    show ?thesis
    proof (cases "prefix \<le> names ! nat ?mid")
      case ge: True
      have step: "left_loop names prefix lo hi left = left_loop names prefix lo (?mid - 1) ?mid"
        using True ge by (subst left_loop.simps) simp
      have above: "\<forall>i. nat ?mid \<le> i \<and> i < length names \<longrightarrow> prefix \<le> names ! i"
      proof (intro allI impI)
        fix i assume "nat ?mid \<le> i \<and> i < length names"
        then have "names ! nat ?mid \<le> names ! i"
          using "1.prems"(1) by (simp add: sorted_nth_mono)
        with ge show "prefix \<le> names ! i" by simp
      qed
      show ?thesis
        unfolding step
        using True ge mid "1.prems" above
        by (intro "1.IH"(1)) auto
    next
      case lt: False
      have step: "left_loop names prefix lo hi left = left_loop names prefix (?mid + 1) hi left"
        using True lt by (subst left_loop.simps) simp
      have below: "\<forall>i < nat (?mid + 1). names ! i < prefix"
      proof (intro allI impI)
        fix i assume "i < nat (?mid + 1)"
        then have "i \<le> nat ?mid" using mid by auto
        then have "names ! i \<le> names ! nat ?mid"
          using "1.prems"(1) mid by (simp add: sorted_nth_mono)
        with lt show "names ! i < prefix" by simp
      qed
      show ?thesis
        unfolding step
        using True lt mid "1.prems" below
        by (intro "1.IH"(2)) auto
    qed
  qed
qed

lemma right_loop_split:
  assumes "sorted names" and "0 \<le> lo" and "hi < int (length names)" and "lo \<le> hi + 1"
    and "right = hi + 1"
    and "\<forall>i < nat lo. names ! i \<le> hi_key"
    and "\<forall>i. nat right \<le> i \<and> i < length names \<longrightarrow> hi_key < names ! i"
  shows "\<exists>r. right_loop names hi_key lo hi right = int r \<and> r \<le> length names
           \<and> (\<forall>i < r. names ! i \<le> hi_key)
           \<and> (\<forall>i. r \<le> i \<and> i < length names \<longrightarrow> hi_key < names ! i)"
  using assms
proof (induction names hi_key lo hi right rule: right_loop.induct)
  case (1 names hi_key lo hi right)
  let ?mid = "(lo + hi) div 2"
  show ?case
  proof (cases "lo \<le> hi")
    case False
    then have "right_loop names hi_key lo hi right = right"
      by (simp add: right_loop.simps)
    moreover have "right = lo" "0 \<le> right" "nat right \<le> length names"
      using False "1.prems" by auto
    ultimately show ?thesis
      using "1.prems" by (intro exI [of _ "nat right"]) auto
  next
    case True
    then have mid: "lo \<le> ?mid" "?mid \<le> hi" "0 \<le> ?mid" "nat ?mid < length names"
      using "1.prems" by auto
    show ?thesis
    proof (cases "hi_key < names ! nat ?mid")
      case gt: True
      have step: "right_loop names hi_key lo hi right = right_loop names hi_key lo (?mid - 1) ?mid"
        using True gt by (subst right_loop.simps) simp
      have above: "\<forall>i. nat ?mid \<le> i \<and> i < length names \<longrightarrow> hi_key < names ! i"
      proof (intro allI impI)
        fix i assume "nat ?mid \<le> i \<and> i < length names"
        then have "names ! nat ?mid \<le> names ! i"
          using "1.prems"(1) by (simp add: sorted_nth_mono)
        with gt show "hi_key < names ! i" by simp
      qed
      show ?thesis
        unfolding step
        using True gt mid "1.prems" above
        by (intro "1.IH"(1)) auto
    next
      case le: False
      have step: "right_loop names hi_key lo hi right = right_loop names hi_key (?mid + 1) hi right"
        using True le by (subst right_loop.simps) simp
      have below: "\<forall>i < nat (?mid + 1). names ! i \<le> hi_key"
      proof (intro allI impI)
        fix i assume "i < nat (?mid + 1)"
        then have "i \<le> nat ?mid" using mid by auto
        then have "names ! i \<le> names ! nat ?mid"
          using "1.prems"(1) mid by (simp add: sorted_nth_mono)
        with le show "names ! i \<le> hi_key" by simp
      qed
      show ?thesis
        unfolding step
        using True le mid "1.prems" below
        by (intro "1.IH"(2)) auto
    qed
  qed
qed

lemma filter_take_none:
  "(\<forall>i < n. i < length xs \<longrightarrow> \<not> P (xs ! i)) \<Longrightarrow> filter P (take n xs) = []"
  by (auto simp: filter_empty_conv in_set_conv_nth)

lemma filter_drop_none:
  "(\<forall>i. n \<le> i \<and> i < length xs \<longrightarrow> \<not> P (xs ! i)) \<Longrightarrow> filter P (drop n xs) = []"
  by (auto simp: filter_empty_conv in_set_conv_nth)

text \<open>
  On a list sorted by lowered name, and for a prefix that is not empty after lowering,
  the search returns exactly the students whose lowered name starts with the lowered
  prefix, in the order of the list, provided no such name is above the high key.
\<close>

lemma prefix_search_below_high_key:
  assumes sorted: "sorted (map (\<lambda>s. lower (s_name s)) xs)"
    and nonempty: "lower prefix0 \<noteq> []"
    and below: "\<forall>s \<in> set xs. startswith (lower (s_name s)) (lower prefix0)
                  \<longrightarrow> lower (s_name s) \<le> lower prefix0 @ [0xFFFF]"
  shows "binary_prefix_search_students lower xs prefix0
           = filter (\<lambda>s. startswith (lower (s_name s)) (lower prefix0)) xs"
proof -
  let ?names = "map (\<lambda>s. lower (s_name s)) xs"
  let ?prefix = "lower prefix0"
  let ?hi_key = "?prefix @ [0xFFFF]"
  let ?P = "\<lambda>s. startswith (lower (s_name s)) ?prefix"
  let ?n = "int (length ?names)"
  have "\<exists>l. left_loop ?names ?prefix 0 (?n - 1) ?n = int l \<and> l \<le> length ?names
           \<and> (\<forall>i < l. ?names ! i < ?prefix)
           \<and> (\<forall>i. l \<le> i \<and> i < length ?names \<longrightarrow> ?prefix \<le> ?names ! i)"
    by (rule left_loop_split [OF sorted]) auto
  then obtain l where l: "left_loop ?names ?prefix 0 (?n - 1) ?n = int l"
    and l_below: "\<forall>i < l. ?names ! i < ?prefix"
    by blast
  have "\<exists>r. right_loop ?names ?hi_key 0 (?n - 1) ?n = int r \<and> r \<le> length ?names
           \<and> (\<forall>i < r. ?names ! i \<le> ?hi_key)
           \<and> (\<forall>i. r \<le> i \<and> i < length ?names \<longrightarrow> ?hi_key < ?names ! i)"
    by (rule right_loop_split [OF sorted]) auto
  then obtain r where r: "right_loop ?names ?hi_key 0 (?n - 1) ?n = int r"
    and r_above: "\<forall>i. r \<le> i \<and> i < length ?names \<longrightarrow> ?hi_key < ?names ! i"
    by blast
  have res: "binary_prefix_search_students lower xs prefix0 = filter ?P (drop l (take r xs))"
    using nonempty l r
    by (simp add: binary_prefix_search_students_def Let_def slice_def)
  have not_above: "\<not> ?P (xs ! i)" if "r \<le> i" "i < length xs" for i
  proof
    assume p: "?P (xs ! i)"
    have nth: "?names ! i = lower (s_name (xs ! i))" using that by simp
    from that have "xs ! i \<in> set xs" by simp
    with below p have "lower (s_name (xs ! i)) \<le> ?hi_key" by blast
    moreover from r_above that have "?hi_key < ?names ! i" by simp
    ultimately show False by (simp add: nth)
  qed
  have not_below: "\<not> ?P (xs ! i)" if "i < l" "i < length xs" for i
  proof
    assume p: "?P (xs ! i)"
    have nth: "?names ! i = lower (s_name (xs ! i))" using that by simp
    from p have "?prefix \<le> lower (s_name (xs ! i))" by (rule startswith_ge)
    moreover from l_below that have "?names ! i < ?prefix" by blast
    ultimately show False by (simp add: nth)
  qed
  have "filter ?P xs = filter ?P (take r xs) @ filter ?P (drop r xs)"
    by (simp only: filter_append [symmetric] append_take_drop_id)
  also have "filter ?P (drop r xs) = []"
    using not_above by (intro filter_drop_none) simp
  also have "filter ?P (take r xs)
      = filter ?P (take l (take r xs)) @ filter ?P (drop l (take r xs))"
    by (simp only: filter_append [symmetric] append_take_drop_id)
  also have "filter ?P (take l (take r xs)) = []"
    using not_below by (intro filter_take_none) simp
  finally show ?thesis by (simp add: res)
qed

text \<open>In particular when no lowered name holds a code point from U+FFFF on.\<close>

lemma prefix_search_below_uffff:
  assumes "sorted (map (\<lambda>s. lower (s_name s)) xs)"
    and "lower prefix0 \<noteq> []"
    and "\<forall>s \<in> set xs. \<forall>c \<in> set (lower (s_name s)). c < 0xFFFF"
  shows "binary_prefix_search_students lower xs prefix0
           = filter (\<lambda>s. startswith (lower (s_name s)) (lower prefix0)) xs"
  using assms by (intro prefix_search_below_high_key) (auto intro: startswith_le_high_key)

section \<open>The prefix search on examples\<close>

text \<open>The example of the specification: "jo" over Jon, Joanna and Bob, sorted by name.\<close>

lemma prefix_search_example:
  "binary_prefix_search_students ascii_lower
     (merge_sort [named 1 (ascii ''Jon''), named 2 (ascii ''Joanna''), named 3 (ascii ''Bob'')]
        (\<lambda>x. ascii_lower (s_name x)) False)
     (ascii ''jo'')
   = [named 2 (ascii ''Joanna''), named 1 (ascii ''Jon'')]"
proof -
  have s: "merge_sort [named 1 (ascii ''Jon''), named 2 (ascii ''Joanna''), named 3 (ascii ''Bob'')]
        (\<lambda>x. ascii_lower (s_name x)) False
      = [named 3 (ascii ''Bob''), named 2 (ascii ''Joanna''), named 1 (ascii ''Jon'')]"
    by code_simp
  have n: "map (\<lambda>s. ascii_lower (s_name s))
             [named 3 (ascii ''Bob''), named 2 (ascii ''Joanna''), named 1 (ascii ''Jon'')]
           = [[98, 111, 98], [106, 111, 97, 110, 110, 97], [106, 111, 110]]"
    by (simp add: named_def ascii_def ascii_lower_def)
  have p: "ascii_lower (ascii ''jo'') = [106, 111]"
    by (simp add: ascii_def ascii_lower_def)
  have l: "left_loop [[98, 111, 98], [106, 111, 97, 110, 110, 97], [106, 111, 110]]
             [106, 111] 0 2 3 = 1"
    by (simp add: left_loop.simps)
  have r: "right_loop [[98, 111, 98], [106, 111, 97, 110, 110, 97], [106, 111, 110]]
             [106, 111, 0xFFFF] 0 2 3 = 3"
    by (simp add: right_loop.simps)
  show ?thesis
    unfolding s binary_prefix_search_students_def Let_def n p
    by (simp add: l r slice_def startswith_def) (simp add: named_def ascii_def ascii_lower_def)
qed

text \<open>
  Claim C6, at an input where it fails. The only student is named "jo" followed by the
  code point U+1F600. The name starts with the prefix "jo", and a list of one name is
  sorted; yet the name is above the high key "jo" + U+FFFF, the second binary search
  puts \<open>right\<close> at 0, and the search returns nothing.
\<close>

theorem prefix_search_misses_name_above_high_key:
  "startswith (ascii_lower (ascii ''jo'' @ [0x1F600])) (ascii_lower (ascii ''jo''))
   \<and> sorted (map (\<lambda>s. ascii_lower (s_name s)) [named 1 (ascii ''jo'' @ [0x1F600])])
   \<and> ascii ''jo'' \<noteq> []
   \<and> binary_prefix_search_students ascii_lower [named 1 (ascii ''jo'' @ [0x1F600])] (ascii ''jo'')
       = []"
proof -
  have n: "map (\<lambda>s. ascii_lower (s_name s)) [named 1 (ascii ''jo'' @ [0x1F600])]
           = [[106, 111, 0x1F600]]"
    by (simp add: named_def ascii_def ascii_lower_def)
  have p: "ascii_lower (ascii ''jo'') = [106, 111]"
    by (simp add: ascii_def ascii_lower_def)
  have l: "left_loop [[106, 111, 0x1F600]] [106, 111] 0 0 1 = 0"
    by (simp add: left_loop.simps)
  have r: "right_loop [[106, 111, 0x1F600]] [106, 111, 0xFFFF] 0 0 1 = 0"
    by (simp add: right_loop.simps)
  have "binary_prefix_search_students ascii_lower [named 1 (ascii ''jo'' @ [0x1F600])] (ascii ''jo'')
       = []"
    unfolding binary_prefix_search_students_def Let_def n p
    by (simp add: l r slice_def)
  moreover have "startswith (ascii_lower (ascii ''jo'' @ [0x1F600])) (ascii_lower (ascii ''jo''))"
    by (simp add: startswith_def ascii_def ascii_lower_def)
  moreover have "ascii ''jo'' \<noteq> []"
    by (simp add: ascii_def)
  ultimately show ?thesis by simp
qed

end
